theory Spec2Isabelle
  imports Complex_Main "HOL-Library.Char_ord" "HOL-Library.List_Lexorder" "HOL-Library.Sublist"
    "HOL-Library.Log_Nat"
begin

section \<open>Data model\<close>

text \<open>
  The search routines receive a networkx \<^verbatim>\<open>Graph\<close>. Its adjacency structure is a dictionary
  from nodes to dictionaries from neighbours to edge attribute dictionaries, all of them
  iterated in insertion order. It is modelled as an association list of association lists.
  An edge attribute dictionary has the two optional keys the code reads,
  \<^verbatim>\<open>'line'\<close> and \<^verbatim>\<open>'weight'\<close>. Nodes are any linearly ordered type (station names are
  strings, compared lexicographically by \<^verbatim>\<open>sorted\<close>); weights are of any type of Python
  numbers: \<open>int\<close> for Python's unbounded integers, \<open>pyfloat\<close> (section \<open>Python numbers\<close>) for
  its floats.
\<close>

datatype error = KeyError | NetworkXError | RecursionError

record 'w edata =
  line :: "string option"
  weight :: "'w option"

type_synonym ('v, 'w) graph = "('v \<times> ('v \<times> 'w edata) list) list"

definition nodes :: "('v, 'w) graph \<Rightarrow> 'v list" where
  "nodes g = map fst g"

definition has_node :: "('v, 'w) graph \<Rightarrow> 'v \<Rightarrow> bool" where
  "has_node g v = (v \<in> set (nodes g))"

text \<open>\<^verbatim>\<open>graph.neighbors(n)\<close> raises \<^verbatim>\<open>NetworkXError\<close> when \<^verbatim>\<open>n\<close> is not a node.\<close>

definition neighbors :: "('v, 'w) graph \<Rightarrow> 'v \<Rightarrow> error + 'v list" where
  "neighbors g n = (case map_of g n of None \<Rightarrow> Inl NetworkXError | Some es \<Rightarrow> Inr (map fst es))"

definition edge :: "('v, 'w) graph \<Rightarrow> 'v \<Rightarrow> 'v \<Rightarrow> bool" where
  "edge g u v = (case map_of g u of None \<Rightarrow> False | Some es \<Rightarrow> v \<in> set (map fst es))"

text \<open>
  The representation invariant of a networkx graph: dictionary keys are unique and every
  neighbour is itself a node of the graph.
\<close>

definition wf_graph :: "('v, 'w) graph \<Rightarrow> bool" where
  "wf_graph g =
     (distinct (nodes g) \<and>
      list_all (\<lambda>(u, es). distinct (map fst es) \<and> list_all (has_node g) (map fst es)) g)"

text \<open>A path of the data model: a non-empty node sequence through edges of the graph.\<close>

definition is_path :: "('v, 'w) graph \<Rightarrow> 'v list \<Rightarrow> bool" where
  "is_path g p = (p \<noteq> [] \<and> list_all (has_node g) p \<and> successively (edge g) p)"

definition path_from_to :: "('v, 'w) graph \<Rightarrow> 'v \<Rightarrow> 'v \<Rightarrow> 'v list \<Rightarrow> bool" where
  "path_from_to g s t p = (is_path g p \<and> hd p = s \<and> last p = t)"

section \<open>Depth-first search\<close>

text \<open>Python's truth value of \<^verbatim>\<open>new_path\<close>: neither \<^verbatim>\<open>None\<close> nor the empty list.\<close>

definition truthy :: "'v list option \<Rightarrow> bool" where
  "truthy r = (case r of None \<Rightarrow> False | Some p \<Rightarrow> p \<noteq> [])"

text \<open>
  \<^verbatim>\<open>dfs_path(graph, start, goal, path=None)\<close>. The first argument is the number of stack
  frames the interpreter still grants: a call with none left raises \<^verbatim>\<open>RecursionError\<close>,
  and every nested call has one frame less. The default \<^verbatim>\<open>path=None\<close> is the empty list.
  \<open>dfs_path_loop\<close> is the \<^verbatim>\<open>for neighbor in neighbors\<close> loop of one frame.
\<close>

fun dfs_path :: "nat \<Rightarrow> ('v::linorder, 'w) graph \<Rightarrow> 'v \<Rightarrow> 'v \<Rightarrow> 'v list \<Rightarrow> error + 'v list option"
  and dfs_path_loop :: "nat \<Rightarrow> ('v::linorder, 'w) graph \<Rightarrow> 'v \<Rightarrow> 'v list \<Rightarrow> 'v list \<Rightarrow> error + 'v list option"
where
  "dfs_path 0 g start goal path = Inl RecursionError"
| "dfs_path (Suc frames) g start goal path =
     (let path = path @ [start] in
      if start = goal then Inr (Some path)
      else if \<not> has_node g start then Inr None
      else (case neighbors g start of
              Inl e \<Rightarrow> Inl e
            | Inr ns \<Rightarrow> dfs_path_loop frames g goal path (sort ns)))"
| "dfs_path_loop frames g goal path [] = Inr None"
| "dfs_path_loop frames g goal path (neighbor # rest) =
     (if neighbor \<notin> set path then
        (case dfs_path frames g neighbor goal path of
           Inl e \<Rightarrow> Inl e
         | Inr new_path \<Rightarrow>
             if truthy new_path then Inr new_path
             else dfs_path_loop frames g goal path rest)
      else dfs_path_loop frames g goal path rest)"

text \<open>
  \<^verbatim>\<open>dfs_path_iterative\<close>. The stack is a Python list: \<^verbatim>\<open>pop()\<close> takes the last element and
  \<^verbatim>\<open>append\<close> adds at the end. \<^verbatim>\<open>visited\<close> does not change inside the \<^verbatim>\<open>for\<close> loop, so
  the loop appends the unvisited neighbours in descending order.
\<close>

definition push_neighbors ::
  "('v \<times> 'v list) list \<Rightarrow> 'v list \<Rightarrow> 'v set \<Rightarrow> 'v list \<Rightarrow> ('v \<times> 'v list) list" where
  "push_neighbors stack path visited ns =
     stack @ map (\<lambda>neighbor. (neighbor, path @ [neighbor])) (filter (\<lambda>neighbor. neighbor \<notin> visited) ns)"

function dfs_iterative_loop ::
  "('v::linorder, 'w) graph \<Rightarrow> 'v \<Rightarrow> ('v \<times> 'v list) list \<Rightarrow> 'v set \<Rightarrow> error + 'v list option" where
  "dfs_iterative_loop g goal stack visited =
     (if stack = [] then Inr None
      else
        let (current, path) = last stack; stack = butlast stack in
        if current = goal then Inr (Some path)
        else if current \<in> visited then dfs_iterative_loop g goal stack visited
        else
          (case neighbors g current of
             Inl e \<Rightarrow> Inl e
           | Inr ns \<Rightarrow>
               dfs_iterative_loop g goal
                 (push_neighbors stack path (insert current visited) (rev (sort ns)))
                 (insert current visited)))"
  by pat_completeness auto
termination
proof (relation "measures [\<lambda>(g, goal, stack, visited). card (set (nodes g) - visited),
    \<lambda>(g, goal, stack, visited). length stack]", goal_cases)
  case 1
  show ?case by simp
next
  case (2 g goal stack visited x current path stacka)
  then show ?case by (cases stack rule: rev_cases) auto
next
  case (3 g goal stack visited x current path stacka ns)
  from 3 have "map_of g current \<noteq> None"
    by (auto simp: neighbors_def split: option.splits)
  then have "current \<in> set (nodes g)"
    by (simp add: map_of_eq_None_iff nodes_def)
  with 3 have "card (set (nodes g) - insert current visited) < card (set (nodes g) - visited)"
    by (intro psubset_card_mono) auto
  then show ?case by simp
qed

declare dfs_iterative_loop.simps [simp del]

definition dfs_path_iterative ::
  "('v::linorder, 'w) graph \<Rightarrow> 'v \<Rightarrow> 'v \<Rightarrow> error + 'v list option" where
  "dfs_path_iterative g start goal =
     (if \<not> has_node g start \<or> \<not> has_node g goal then Inr None
      else dfs_iterative_loop g goal [(start, [start])] {})"

section \<open>Breadth-first search\<close>

text \<open>
  The \<^verbatim>\<open>for neighbor in neighbors\<close> loop of \<^verbatim>\<open>bfs_path\<close>: it returns the path (left) as soon
  as the goal is met, and otherwise the extended queue and visited set (right).
\<close>

fun bfs_neighbors ::
  "'v \<Rightarrow> 'v list \<Rightarrow> 'v list \<Rightarrow> ('v \<times> 'v list) list \<Rightarrow> 'v set \<Rightarrow>
     'v list + (('v \<times> 'v list) list \<times> 'v set)" where
  "bfs_neighbors goal path [] queue visited = Inr (queue, visited)"
| "bfs_neighbors goal path (neighbor # rest) queue visited =
     (if neighbor \<notin> visited then
        let new_path = path @ [neighbor] in
        if neighbor = goal then Inl new_path
        else bfs_neighbors goal path rest (queue @ [(neighbor, new_path)]) (insert neighbor visited)
      else bfs_neighbors goal path rest queue visited)"

text \<open>Every node the adjacency structure mentions, as a key or as a neighbour.\<close>

definition mentioned :: "('v, 'w) graph \<Rightarrow> 'v set" where
  "mentioned g = set (nodes g) \<union> set (concat (map (\<lambda>(u, es). map fst es) g))"

text \<open>The \<^verbatim>\<open>while queue\<close> loop; \<^verbatim>\<open>popleft\<close> takes the head of the list.\<close>

function bfs_loop ::
  "('v::linorder, 'w) graph \<Rightarrow> 'v \<Rightarrow> ('v \<times> 'v list) list \<Rightarrow> 'v set \<Rightarrow> error + 'v list option" where
  "bfs_loop g goal [] visited = Inr None"
| "bfs_loop g goal ((current, path) # queue) visited =
     (case neighbors g current of
        Inl e \<Rightarrow> Inl e
      | Inr ns \<Rightarrow>
          (case bfs_neighbors goal path (sort ns) queue visited of
             Inl new_path \<Rightarrow> Inr (Some new_path)
           | Inr (queue', visited') \<Rightarrow> bfs_loop g goal queue' visited'))"
  by pat_completeness auto
termination
proof (relation "measures [\<lambda>(g, goal, queue, visited). card (mentioned g - visited),
    \<lambda>(g, goal, queue, visited). length queue]", goal_cases)
  case 1
  show ?case by simp
next
  case (2 g goal current path queue visited ns x queue' visited')
  have scan: "bfs_neighbors goal path xs q v = Inr (q', v') \<Longrightarrow>
      (v' = v \<and> q' = q) \<or> (v \<subset> v' \<and> v' \<subseteq> v \<union> set xs)" for xs q v q' v'
  proof (induction xs arbitrary: q v)
    case Nil
    then show ?case by simp
  next
    case (Cons a xs)
    show ?case
    proof (cases "a \<in> v")
      case True
      with Cons.prems have "bfs_neighbors goal path xs q v = Inr (q', v')" by simp
      from Cons.IH[OF this] show ?thesis by auto
    next
      case False
      with Cons.prems have "bfs_neighbors goal path xs (q @ [(a, path @ [a])]) (insert a v) = Inr (q', v')"
        by (simp add: Let_def split: if_splits)
      from Cons.IH[OF this] False show ?thesis by auto
    qed
  qed
  from 2 have r: "bfs_neighbors goal path (sort ns) queue visited = Inr (queue', visited')" by simp
  from 2 obtain es where es: "map_of g current = Some es" "ns = map fst es"
    by (auto simp: neighbors_def split: option.splits)
  from es(1) have "(current, es) \<in> set g" by (rule map_of_SomeD)
  with es(2) have sub: "set ns \<subseteq> mentioned g" by (force simp: mentioned_def)
  have fin: "finite (mentioned g)" unfolding mentioned_def by (intro finite_UnI finite_set)
  from scan[OF r] show ?case
  proof
    assume "visited' = visited \<and> queue' = queue"
    then show ?thesis by simp
  next
    assume a: "visited \<subset> visited' \<and> visited' \<subseteq> visited \<union> set (sort ns)"
    then obtain y where y: "y \<in> visited'" "y \<notin> visited" by blast
    with a sub have "y \<in> mentioned g" by auto
    with y a have "mentioned g - visited' \<subset> mentioned g - visited" by blast
    with fin have "card (mentioned g - visited') < card (mentioned g - visited)"
      by (intro psubset_card_mono) simp_all
    then show ?thesis by simp
  qed
qed

declare bfs_loop.simps [simp del]

definition bfs_path :: "('v::linorder, 'w) graph \<Rightarrow> 'v \<Rightarrow> 'v \<Rightarrow> error + 'v list option" where
  "bfs_path g start goal =
     (if \<not> has_node g start \<or> \<not> has_node g goal then Inr None
      else if start = goal then Inr (Some [start])
      else bfs_loop g goal [(start, [start])] {start})"

section \<open>Python numbers\<close>

text \<open>
  The search code adds weights, compares them and starts from the literals \<^verbatim>\<open>0\<close> and \<^verbatim>\<open>1\<close>,
  so it is embedded over any type with these operations and a linear order. Python's \<^verbatim>\<open>int\<close>
  is \<open>int\<close>, with exact arithmetic. Python's \<^verbatim>\<open>float\<close> is an IEEE 754 binary64 number: a finite
  float is modelled by the rational number it denotes, and \<^verbatim>\<open>+\<close> and \<^verbatim>\<open>*\<close> return the exact
  result rounded to the nearest number with a 53-bit significand, ties to the even
  significand (numbers below \<open>2 ^ (- 1022)\<close> are spaced \<open>2 ^ (- 1074)\<close> apart). Overflow to
  \<^verbatim>\<open>inf\<close> is left out, so the model is that of results below \<open>2 ^ 1024\<close>. An \<^verbatim>\<open>int\<close> operand of a
  mixed operation is converted to a float first, exactly so below \<open>2 ^ 53\<close>: the literals
  \<^verbatim>\<open>0\<close>, \<^verbatim>\<open>1\<close> and \<^verbatim>\<open>5\<close> of the code are the floats of the same value.
\<close>

text \<open>The quotient \<open>a / b\<close> for \<open>0 < b\<close>, rounded to the nearest integer, ties to the even one.\<close>

definition round_div :: "int \<Rightarrow> int \<Rightarrow> int" where
  "round_div a b =
     (let d = a div b; r = a mod b in
      if 2 * r < b then d else if b < 2 * r then d + 1 else if even d then d else d + 1)"

text \<open>
  The binary64 number nearest to \<open>x = p / q\<close>. The exponent \<open>e\<close> is the one with
  \<open>2 ^ e \<le> \<bar>x\<bar> < 2 ^ (e + 1)\<close>, found from the bit lengths of \<open>p\<close> and \<open>q\<close>; the result is a
  multiple of \<open>2 ^ s\<close> for \<open>s = max (e - 52) (- 1074)\<close>.
\<close>

definition binary64 :: "rat \<Rightarrow> rat" where
  "binary64 x =
     (let (p, q) = quotient_of x;
          e0 = bitlen \<bar>p\<bar> - bitlen q;
          e = (if \<bar>p\<bar> * 2 ^ nat (- e0) < q * 2 ^ nat e0 then e0 - 1 else e0);
          s = max (e - 52) (- 1074)
      in if 0 \<le> s then of_int (round_div p (q * 2 ^ nat s) * 2 ^ nat s)
         else Fract (round_div (p * 2 ^ nat (- s)) q) (2 ^ nat (- s)))"

datatype pyfloat = PyFloat rat

fun float_value :: "pyfloat \<Rightarrow> rat" where
  "float_value (PyFloat x) = x"

text \<open>The float that a decimal literal or an \<^verbatim>\<open>int\<close> of value \<open>x\<close> denotes.\<close>

definition py_float :: "rat \<Rightarrow> pyfloat" where
  "py_float x = PyFloat (binary64 x)"

instantiation pyfloat :: "{zero, one, plus, times, linorder}"
begin

definition zero_pyfloat :: pyfloat where
  "0 = PyFloat 0"

definition one_pyfloat :: pyfloat where
  "1 = PyFloat 1"

definition plus_pyfloat :: "pyfloat \<Rightarrow> pyfloat \<Rightarrow> pyfloat" where
  "a + b = PyFloat (binary64 (float_value a + float_value b))"

definition times_pyfloat :: "pyfloat \<Rightarrow> pyfloat \<Rightarrow> pyfloat" where
  "a * b = PyFloat (binary64 (float_value a * float_value b))"

definition less_eq_pyfloat :: "pyfloat \<Rightarrow> pyfloat \<Rightarrow> bool" where
  "a \<le> b = (float_value a \<le> float_value b)"

definition less_pyfloat :: "pyfloat \<Rightarrow> pyfloat \<Rightarrow> bool" where
  "a < b = (float_value a < float_value b)"

instance
proof
  fix x y z :: pyfloat
  show "(x < y) = (x \<le> y \<and> \<not> y \<le> x)"
    by (auto simp: less_pyfloat_def less_eq_pyfloat_def)
  show "x \<le> x"
    by (simp add: less_eq_pyfloat_def)
  show "x \<le> y \<Longrightarrow> y \<le> z \<Longrightarrow> x \<le> z"
    by (simp add: less_eq_pyfloat_def)
  show "x \<le> y \<Longrightarrow> y \<le> x \<Longrightarrow> x = y"
    by (cases x; cases y) (simp add: less_eq_pyfloat_def)
  show "x \<le> y \<or> y \<le> x"
    by (auto simp: less_eq_pyfloat_def)
qed

end

section \<open>Dijkstra's algorithm\<close>

text \<open>
  A tentative distance is a number or \<^verbatim>\<open>float('infinity')\<close>. The two comparisons the loop
  makes are \<^verbatim>\<open>distance < distances[neighbor]\<close> and
  \<^verbatim>\<open>current_distance > distances[current_node]\<close>, with a number on the left.
\<close>

datatype 'w dist = Num 'w | Infinity

fun lt_dist :: "'w::linorder \<Rightarrow> 'w dist \<Rightarrow> bool" where
  "lt_dist d (Num e) = (d < e)"
| "lt_dist d Infinity = True"

fun gt_dist :: "'w::linorder \<Rightarrow> 'w dist \<Rightarrow> bool" where
  "gt_dist d (Num e) = (e < d)"
| "gt_dist d Infinity = False"

text \<open>\<^verbatim>\<open>data.get('weight', 1)\<close> and \<^verbatim>\<open>graph[u][v]\<close>.\<close>

definition edge_weight :: "'w::one edata \<Rightarrow> 'w" where
  "edge_weight data = (case weight data of None \<Rightarrow> 1 | Some w \<Rightarrow> w)"

definition edge_data :: "('v, 'w) graph \<Rightarrow> 'v \<Rightarrow> 'v \<Rightarrow> error + 'w edata" where
  "edge_data g u v =
     (case map_of g u of
        None \<Rightarrow> Inl KeyError
      | Some es \<Rightarrow> (case map_of es v of None \<Rightarrow> Inl KeyError | Some data \<Rightarrow> Inr data))"

text \<open>
  The priority queue holds tuples \<^verbatim>\<open>(distance, node)\<close>, which Python compares
  lexicographically. \<^verbatim>\<open>heapq\<close> keeps a binary heap in a list; what the loop observes of it
  is a bag of tuples from which \<^verbatim>\<open>heappop\<close> removes a least one, so the bag is modelled as
  a list and \<^verbatim>\<open>heappop\<close> as the extraction of its least tuple.
\<close>

definition tuple_le :: "'w::linorder \<times> 'v::linorder \<Rightarrow> 'w \<times> 'v \<Rightarrow> bool" where
  "tuple_le a b = (fst a < fst b \<or> (fst a = fst b \<and> snd a \<le> snd b))"

fun least_tuple :: "'w::linorder \<times> 'v::linorder \<Rightarrow> ('w \<times> 'v) list \<Rightarrow> 'w \<times> 'v" where
  "least_tuple m [] = m"
| "least_tuple m (x # xs) = least_tuple (if tuple_le m x then m else x) xs"

definition heappop :: "('w::linorder \<times> 'v::linorder) list \<Rightarrow> ('w \<times> 'v) \<times> ('w \<times> 'v) list" where
  "heappop h = (let m = least_tuple (hd h) (tl h) in (m, remove1 m h))"

definition heappush :: "('w \<times> 'v) list \<Rightarrow> 'w \<times> 'v \<Rightarrow> ('w \<times> 'v) list" where
  "heappush h x = x # h"

text \<open>Two facts about \<open>heappop\<close> that the loop's proof of termination needs.\<close>

lemma least_tuple_in: "least_tuple m xs \<in> set (m # xs)"
  by (induction xs arbitrary: m) auto

lemma heappop_length: "h \<noteq> [] \<Longrightarrow> heappop h = (m, h') \<Longrightarrow> length h' < length h"
proof -
  assume a: "h \<noteq> []" "heappop h = (m, h')"
  then have mh: "m = least_tuple (hd h) (tl h)" "h' = remove1 m h"
    by (auto simp: heappop_def Let_def)
  have "least_tuple (hd h) (tl h) \<in> set (hd h # tl h)" by (rule least_tuple_in)
  with a(1) mh(1) have "m \<in> set h" by simp
  then have "length (remove1 m h) = length h - 1" by (simp add: length_remove1)
  with a(1) mh(2) show ?thesis by (cases h) simp_all
qed

text \<open>The \<^verbatim>\<open>for neighbor in graph.neighbors(current_node)\<close> loop.\<close>

fun relax ::
  "('v::linorder, 'w::{one, plus, linorder}) graph \<Rightarrow> 'v \<Rightarrow> 'w \<Rightarrow> 'v set \<Rightarrow> 'v list \<Rightarrow>
     ('v \<rightharpoonup> 'w dist) \<Rightarrow> ('v \<rightharpoonup> 'v option) \<Rightarrow> ('w \<times> 'v) list \<Rightarrow>
     error + (('v \<rightharpoonup> 'w dist) \<times> ('v \<rightharpoonup> 'v option) \<times> ('w \<times> 'v) list)" where
  "relax g current_node current_distance visited [] distances previous priority_queue =
     Inr (distances, previous, priority_queue)"
| "relax g current_node current_distance visited (neighbor # rest) distances previous priority_queue =
     (if neighbor \<in> visited then
        relax g current_node current_distance visited rest distances previous priority_queue
      else
        (case edge_data g current_node neighbor of
           Inl e \<Rightarrow> Inl e
         | Inr data \<Rightarrow>
             let distance = current_distance + edge_weight data in
             (case distances neighbor of
                None \<Rightarrow> Inl KeyError
              | Some dn \<Rightarrow>
                  if lt_dist distance dn then
                    relax g current_node current_distance visited rest
                      (distances(neighbor \<mapsto> Num distance))
                      (previous(neighbor \<mapsto> Some current_node))
                      (heappush priority_queue (distance, neighbor))
                  else
                    relax g current_node current_distance visited rest distances previous
                      priority_queue)))"

text \<open>The \<^verbatim>\<open>while priority_queue\<close> loop.\<close>

function dijkstra_loop ::
  "('v::linorder, 'w::{one, plus, linorder}) graph \<Rightarrow> ('v \<rightharpoonup> 'w dist) \<Rightarrow> ('v \<rightharpoonup> 'v option) \<Rightarrow>
     ('w \<times> 'v) list \<Rightarrow> 'v set \<Rightarrow> error + (('v \<rightharpoonup> 'w dist) \<times> ('v \<rightharpoonup> 'v option))" where
  "dijkstra_loop g distances previous priority_queue visited =
     (if priority_queue = [] then Inr (distances, previous)
      else
        let (item, priority_queue) = heappop priority_queue;
            (current_distance, current_node) = item in
        if current_node \<in> visited then dijkstra_loop g distances previous priority_queue visited
        else
          let visited = insert current_node visited in
          (case distances current_node of
             None \<Rightarrow> Inl KeyError
           | Some dc \<Rightarrow>
               if gt_dist current_distance dc then
                 dijkstra_loop g distances previous priority_queue visited
               else
                 (case neighbors g current_node of
                    Inl e \<Rightarrow> Inl e
                  | Inr ns \<Rightarrow>
                      (case relax g current_node current_distance visited ns
                              distances previous priority_queue of
                         Inl e \<Rightarrow> Inl e
                       | Inr (distances, previous, priority_queue) \<Rightarrow>
                           dijkstra_loop g distances previous priority_queue visited))))"
  by pat_completeness auto

termination
proof (relation "measures [\<lambda>(g, distances, previous, pq, visited). card (set (nodes g) - visited),
    \<lambda>(g, distances, previous, pq, visited). length pq]", goal_cases)
  case 1
  show ?case by simp
next
  case (2 g distances previous priority_queue visited x item pq)
  then have "heappop priority_queue = (item, pq)" by simp
  from heappop_length[OF 2(1) this] show ?case by simp
next
  case (3 g distances previous priority_queue visited x item pq xb current_distance current_node visited')
  then have "heappop priority_queue = (item, pq)" by simp
  from heappop_length[OF 3(1) this] have "length pq < length priority_queue" .
  moreover have "card (set (nodes g) - insert current_node visited) \<le> card (set (nodes g) - visited)"
    by (rule card_mono) auto
  moreover from 3 have "visited' = insert current_node visited" by simp
  ultimately show ?case by auto
next
  case (4 g distances previous priority_queue visited x item pq xb current_distance current_node visited' dc ns)
  from 4 have "map_of g current_node \<noteq> None"
    by (auto simp: neighbors_def split: option.splits)
  then have "current_node \<in> set (nodes g)"
    by (simp add: map_of_eq_None_iff nodes_def)
  moreover from 4 have "current_node \<notin> visited" by simp
  ultimately have "set (nodes g) - insert current_node visited \<subset> set (nodes g) - visited"
    by blast
  then have "card (set (nodes g) - insert current_node visited) < card (set (nodes g) - visited)"
    by (intro psubset_card_mono) simp_all
  moreover from 4 have "visited' = insert current_node visited" by simp
  ultimately show ?case by simp
qed

declare dijkstra_loop.simps [simp del]

definition dijkstra ::
  "('v::linorder, 'w::{zero, one, plus, linorder}) graph \<Rightarrow> 'v \<Rightarrow>
     error + (('v \<rightharpoonup> 'w dist) \<times> ('v \<rightharpoonup> 'v option))" where
  "dijkstra g start =
     dijkstra_loop g
       ((map_of (map (\<lambda>node. (node, Infinity)) (nodes g)))(start \<mapsto> Num 0))
       (map_of (map (\<lambda>node. (node, None)) (nodes g)))
       [(0, start)] {}"

text \<open>
  \<^verbatim>\<open>reconstruct_path(previous, start, end)\<close>. The \<^verbatim>\<open>while current is not None\<close> loop follows
  whatever the dictionary holds, so it need not return: not returning is the value \<open>None\<close>.
  \<^verbatim>\<open>previous[current]\<close> raises \<^verbatim>\<open>KeyError\<close> on a missing key.
\<close>

partial_function (option) walk_back ::
  "('v \<rightharpoonup> 'v option) \<Rightarrow> 'v option \<Rightarrow> 'v list \<Rightarrow> (error + 'v list) option" where
  "walk_back previous current path =
     (case current of
        None \<Rightarrow> Some (Inr path)
      | Some c \<Rightarrow>
          (case previous c of
             None \<Rightarrow> Some (Inl KeyError)
           | Some p \<Rightarrow> walk_back previous p (path @ [c])))"

declare walk_back.simps [code]

definition reconstruct_path ::
  "('v \<rightharpoonup> 'v option) \<Rightarrow> 'v \<Rightarrow> 'v \<Rightarrow> (error + 'v list) option" where
  "reconstruct_path previous start end_node =
     (case walk_back previous (Some end_node) [] of
        None \<Rightarrow> None
      | Some (Inl e) \<Rightarrow> Some (Inl e)
      | Some (Inr path) \<Rightarrow>
          (let path = rev path in
           if path \<noteq> [] \<and> hd path = start then Some (Inr path) else Some (Inr [])))"

section \<open>Travel times\<close>

text \<open>
  Travel times are modelled as real numbers: the decimals from 2.5 to 3.4 and the integer 5.
  \<^verbatim>\<open>round(x, 1)\<close> on real numbers: the nearest multiple of one tenth, ties to the even one.
\<close>

definition py_round1 :: "real \<Rightarrow> real" where
  "py_round1 x =
     (let y = x * 10; f = \<lfloor>y\<rfloor>; r = y - of_int f in
      of_int (if r < 1 / 2 then f else if 1 / 2 < r then f + 1 else if even f then f else f + 1) / 10)"

text \<open>
  The weight \<^verbatim>\<open>add_travel_times\<close> assigns to the edge between \<open>u\<close> and \<open>v\<close> with attributes
  \<open>data\<close>. Python's built-in \<^verbatim>\<open>hash\<close> is a parameter: it is an integer-valued function of the
  node that the interpreter fixes per process.
\<close>

definition travel_time :: "('v \<Rightarrow> int) \<Rightarrow> 'v \<Rightarrow> 'v \<Rightarrow> real edata \<Rightarrow> real" where
  "travel_time hash u v data =
     (let line_name = (case line data of None \<Rightarrow> ''unknown'' | Some l \<Rightarrow> l) in
      if line_name = ''transfer'' then 5
      else
        let base_time = 2.5;
            variation = of_int ((hash u + hash v) mod 10) / 10
        in py_round1 (base_time + variation))"

text \<open>
  \<^verbatim>\<open>add_travel_times(G)\<close> works on a copy and visits every undirected edge once; the
  attribute dictionary it updates is shared by both directions of the edge. The assigned
  value is symmetric in the endpoints, so both stored directions receive it.
\<close>

definition add_travel_times :: "('v \<Rightarrow> int) \<Rightarrow> ('v, real) graph \<Rightarrow> ('v, real) graph" where
  "add_travel_times hash G =
     map (\<lambda>(u, es). (u, map (\<lambda>(v, data). (v, data\<lparr>weight := Some (travel_time hash u v data)\<rparr>)) es)) G"

section \<open>Notions the properties are stated with\<close>

text \<open>The cumulative weight of a node sequence: the sum of the weights of its consecutive edges.\<close>

definition edge_cost :: "('v, 'w::linordered_idom) graph \<Rightarrow> 'v \<Rightarrow> 'v \<Rightarrow> 'w" where
  "edge_cost g u v = (case edge_data g u v of Inr data \<Rightarrow> edge_weight data | Inl e \<Rightarrow> 0)"

fun path_weight :: "('v, 'w::linordered_idom) graph \<Rightarrow> 'v list \<Rightarrow> 'w" where
  "path_weight g (u # v # rest) = edge_cost g u v + path_weight g (v # rest)"
| "path_weight g [u] = 0"
| "path_weight g [] = 0"

text \<open>
  The nodes that following the predecessor links from \<open>t\<close> meets, \<open>t\<close> first, up to a node
  whose predecessor is \<^verbatim>\<open>None\<close>.
\<close>

inductive pred_chain :: "('v \<rightharpoonup> 'v option) \<Rightarrow> 'v \<Rightarrow> 'v list \<Rightarrow> bool" where
  root: "previous t = Some None \<Longrightarrow> pred_chain previous t [t]"
| link: "previous t = Some (Some u) \<Longrightarrow> pred_chain previous u xs \<Longrightarrow> pred_chain previous t (t # xs)"

definition nonneg_weights :: "('v, 'w::linordered_idom) graph \<Rightarrow> bool" where
  "nonneg_weights g = list_all (\<lambda>(u, es). list_all (\<lambda>(v, data). 0 \<le> edge_weight data) es) g"

definition unweighted :: "('v, 'w) graph \<Rightarrow> bool" where
  "unweighted g = list_all (\<lambda>(u, es). list_all (\<lambda>(v, data). weight data = None) es) g"

text \<open>The graph with every edge weight multiplied by \<open>k\<close>.\<close>

definition scale_weights :: "'w::{one, times} \<Rightarrow> ('v, 'w) graph \<Rightarrow> ('v, 'w) graph" where
  "scale_weights k g =
     map (\<lambda>(u, es). (u, map (\<lambda>(v, data). (v, data\<lparr>weight := Some (k * edge_weight data)\<rparr>)) es)) g"

fun scale_dist :: "'w::times \<Rightarrow> 'w dist \<Rightarrow> 'w dist" where
  "scale_dist k (Num d) = Num (k * d)"
| "scale_dist k Infinity = Infinity"

text \<open>The graphs of the specification's scenarios, as networkx stores them.\<close>

definition no_attrs :: "int edata" where
  "no_attrs = \<lparr>line = None, weight = None\<rparr>"

definition weighted :: "int \<Rightarrow> int edata" where
  "weighted w = \<lparr>line = None, weight = Some w\<rparr>"

definition chain_graph :: "(string, int) graph" where
  "chain_graph =
     [(''A'', [(''B'', no_attrs)]),
      (''B'', [(''A'', no_attrs), (''C'', no_attrs)]),
      (''C'', [(''B'', no_attrs), (''D'', no_attrs)]),
      (''D'', [(''C'', no_attrs)])]"

definition triangle_graph :: "(string, int) graph" where
  "triangle_graph =
     [(''A'', [(''B'', weighted 1), (''C'', weighted 5)]),
      (''B'', [(''A'', weighted 1), (''C'', weighted 1)]),
      (''C'', [(''B'', weighted 1), (''A'', weighted 5)])]"

text \<open>Two nodes and no edge.\<close>

definition two_islands :: "(string, int) graph" where
  "two_islands = [(''A'', []), (''B'', [])]"

text \<open>
  Three stations in a row with the float travel times \<^verbatim>\<open>2.6\<close> and \<^verbatim>\<open>2.7\<close>, two of the values
  that \<^verbatim>\<open>add_travel_times\<close> assigns.
\<close>

definition minutes :: "rat \<Rightarrow> pyfloat edata" where
  "minutes w = \<lparr>line = Some ''red'', weight = Some (py_float w)\<rparr>"

definition float_chain :: "(string, pyfloat) graph" where
  "float_chain =
     [(''A'', [(''B'', minutes (26 / 10))]),
      (''B'', [(''A'', minutes (26 / 10)), (''C'', minutes (27 / 10))]),
      (''C'', [(''B'', minutes (27 / 10))])]"

text \<open>A station with two neighbours on its line and a transfer, as the metro graph stores it.\<close>

definition metro_sample :: "(string, real) graph" where
  "metro_sample =
     [(''Universytet'', [(''Teatralna'', \<lparr>line = Some ''red'', weight = Some 1\<rparr>)]),
      (''Teatralna'', [(''Universytet'', \<lparr>line = Some ''red'', weight = Some 1\<rparr>),
                       (''Khreshchatyk'', \<lparr>line = Some ''red'', weight = Some 1\<rparr>),
                       (''Zoloti Vorota'', \<lparr>line = Some ''transfer'', weight = Some 0.5\<rparr>)]),
      (''Khreshchatyk'', [(''Teatralna'', \<lparr>line = Some ''red'', weight = Some 1\<rparr>)]),
      (''Zoloti Vorota'', [(''Teatralna'', \<lparr>line = Some ''transfer'', weight = Some 0.5\<rparr>)])]"

section \<open>Properties of depth-first search\<close>

lemma neighbors_Inr_edge: "neighbors g u = Inr ns \<Longrightarrow> v \<in> set ns \<Longrightarrow> edge g u v"
  by (auto simp: neighbors_def edge_def split: option.splits)

lemma has_node_iff: "has_node g u = (map_of g u \<noteq> None)"
  by (simp add: has_node_def nodes_def map_of_eq_None_iff)

lemma neighbors_Inr_has_node: "neighbors g u = Inr ns \<Longrightarrow> has_node g u"
  by (auto simp: neighbors_def has_node_iff split: option.splits)

lemma has_node_neighbors: "has_node g u \<Longrightarrow> \<exists>ns. neighbors g u = Inr ns"
  by (auto simp: neighbors_def has_node_iff split: option.splits)

lemma dfs_path_sound:
  "dfs_path n g start goal path = Inr (Some p) \<Longrightarrow> distinct path \<Longrightarrow> start \<notin> set path \<Longrightarrow>
     successively (edge g) (path @ [start]) \<Longrightarrow>
     distinct p \<and> successively (edge g) p \<and> prefix (path @ [start]) p \<and> last p = goal"
  "dfs_path_loop n g goal path ns = Inr (Some p) \<Longrightarrow> distinct path \<Longrightarrow> path \<noteq> [] \<Longrightarrow>
     successively (edge g) path \<Longrightarrow> \<forall>x \<in> set ns. edge g (last path) x \<Longrightarrow>
     distinct p \<and> successively (edge g) p \<and> prefix path p \<and> last p = goal"
proof (induction n g start goal path and n g goal path ns arbitrary: p and p rule: dfs_path_dfs_path_loop.induct)
  case (1 g start goal path)
  then show ?case by simp
next
  case (2 frames g start goal path)
  show ?case
  proof (cases "start = goal")
    case True
    with "2.prems"(1) have "p = path @ [start]" by (simp add: Let_def)
    with "2.prems" True show ?thesis by simp
  next
    case False
    with "2.prems"(1) obtain ns where ns: "has_node g start" "neighbors g start = Inr ns"
      "dfs_path_loop frames g goal (path @ [start]) (sort ns) = Inr (Some p)"
      by (auto simp: Let_def split: if_splits sum.splits)
    have e: "\<forall>x\<in>set (sort ns). edge g (last (path @ [start])) x"
      using ns(2) by (auto intro: neighbors_Inr_edge)
    have d: "distinct (path @ [start])" using "2.prems" by simp
    have ne: "path @ [start] \<noteq> []" by simp
    have nh: "\<not> \<not> has_node g start" using ns(1) by simp
    show ?thesis
      using "2.IH"[OF refl False nh ns(2) ns(3) d ne "2.prems"(4) e] by simp
  qed
next
  case (3 frames g goal path)
  then show ?case by simp
next
  case (4 frames g goal path neighbor rest)
  show ?case
  proof (cases "neighbor \<in> set path")
    case True
    with "4.prems"(1) have "dfs_path_loop frames g goal path rest = Inr (Some p)" by simp
    moreover have "\<forall>x \<in> set rest. edge g (last path) x" using "4.prems"(5) by simp
    ultimately show ?thesis using "4.IH"(3) True "4.prems"(2,3,4) by blast
  next
    case False
    show ?thesis
    proof (cases "dfs_path frames g neighbor goal path")
      case (Inl e)
      with False "4.prems"(1) show ?thesis by simp
    next
      case (Inr r)
      show ?thesis
      proof (cases "truthy r")
        case True
        with False Inr "4.prems"(1) have "dfs_path frames g neighbor goal path = Inr (Some p)"
          by simp
        moreover have "successively (edge g) (path @ [neighbor])"
          using "4.prems"(3,4,5) by (simp add: successively_append_iff)
        ultimately have "distinct p \<and> successively (edge g) p \<and> prefix (path @ [neighbor]) p \<and> last p = goal"
          using "4.IH"(1)[OF False] "4.prems"(2) False by blast
        then show ?thesis using append_prefixD by blast
      next
        case nt: False
        with False Inr "4.prems"(1) have "dfs_path_loop frames g goal path rest = Inr (Some p)"
          by simp
        moreover have "\<forall>x \<in> set rest. edge g (last path) x" using "4.prems"(5) by simp
        ultimately show ?thesis using "4.IH"(2)[OF False Inr nt] "4.prems"(2,3,4) by blast
      qed
    qed
  qed
qed

lemma card_Diff_snoc_less:
  assumes "x \<in> set ys" "x \<notin> set xs"
  shows "card (set ys - set (xs @ [x])) < card (set ys - set xs)"
proof -
  have "set ys - set (xs @ [x]) \<subset> set ys - set xs" using assms by auto
  then show ?thesis by (simp add: psubset_card_mono)
qed

lemma dfs_path_Suc_unfold:
  "start \<noteq> goal \<Longrightarrow> has_node g start \<Longrightarrow> neighbors g start = Inr ns \<Longrightarrow>
   dfs_path (Suc frames) g start goal path = dfs_path_loop frames g goal (path @ [start]) (sort ns)"
  by (simp add: Let_def)

lemma dfs_path_Suc_stop:
  "start = goal \<or> \<not> has_node g start \<Longrightarrow> \<exists>r. dfs_path (Suc frames) g start goal path = Inr r"
  by (cases "start = goal") (simp_all add: Let_def)

lemma dfs_path_returns:
  "start \<notin> set path \<Longrightarrow> card (set (nodes g) - set path) < n \<Longrightarrow>
     \<exists>r. dfs_path n g start goal path = Inr r"
  "card (set (nodes g) - set path) < n \<Longrightarrow>
     \<exists>r. dfs_path_loop n g goal path ns = Inr r"
proof (induction n g start goal path and n g goal path ns rule: dfs_path_dfs_path_loop.induct)
  case (1 g start goal path)
  then show ?case by simp
next
  case (2 frames g start goal path)
  show ?case
  proof (cases "start = goal \<or> \<not> has_node g start")
    case True
    then show ?thesis by (rule dfs_path_Suc_stop)
  next
    case False
    then have sg: "start \<noteq> goal" and hn: "has_node g start" by simp_all
    from has_node_neighbors[OF hn] obtain nbs where ns: "neighbors g start = Inr nbs" ..
    have "card (set (nodes g) - set (path @ [start])) < card (set (nodes g) - set path)"
      using hn "2.prems"(1) unfolding has_node_def by (rule card_Diff_snoc_less)
    with "2.prems"(2) have c: "card (set (nodes g) - set (path @ [start])) < frames" by linarith
    have nh: "\<not> \<not> has_node g start" using hn by simp
    obtain r where "dfs_path_loop frames g goal (path @ [start]) (sort nbs) = Inr r"
      using "2.IH"[OF refl sg nh ns c] by blast
    then show ?thesis
      unfolding dfs_path_Suc_unfold[OF sg hn ns] by blast
  qed
next
  case (3 frames g goal path)
  then show ?case by simp
next
  case (4 frames g goal path neighbor rest)
  show ?case
  proof (cases "neighbor \<in> set path")
    case True
    with "4.IH"(3)[OF _ "4.prems"] show ?thesis by simp
  next
    case False
    obtain r where r: "dfs_path frames g neighbor goal path = Inr r"
      using "4.IH"(1)[OF False False "4.prems"] by blast
    show ?thesis
    proof (cases "truthy r")
      case True
      with False r show ?thesis by simp
    next
      case nt: False
      from "4.IH"(2)[OF False r nt "4.prems"] False r nt show ?thesis by simp
    qed
  qed
qed

lemma dfs_iterative_loop_sound:
  "dfs_iterative_loop g goal stack visited = Inr (Some p) \<Longrightarrow>
   \<forall>(n, q) \<in> set stack. q \<noteq> [] \<and> last q = n \<and> hd q = start \<and> distinct q \<and>
      successively (edge g) q \<and> set (butlast q) \<subseteq> visited \<Longrightarrow>
   distinct p \<and> successively (edge g) p \<and> p \<noteq> [] \<and> hd p = start \<and> last p = goal"
proof (induction g goal stack visited rule: dfs_iterative_loop.induct)
  case (1 g goal stack visited)
  from "1.prems"(1) have ne: "stack \<noteq> []"
    by (subst (asm) dfs_iterative_loop.simps) (simp split: if_splits)
  obtain current path where cp: "last stack = (current, path)" by (cases "last stack")
  have mem: "(current, path) \<in> set stack" using ne cp last_in_set by metis
  with "1.prems"(2) have P: "path \<noteq> []" "last path = current" "hd path = start" "distinct path"
     "successively (edge g) path" "set (butlast path) \<subseteq> visited" by auto
  have rest: "\<forall>(n, q) \<in> set (butlast stack). q \<noteq> [] \<and> last q = n \<and> hd q = start \<and> distinct q \<and>
      successively (edge g) q \<and> set (butlast q) \<subseteq> visited"
    using "1.prems"(2) in_set_butlastD by fast
  show ?case
  proof (cases "current = goal")
    case True
    with "1.prems"(1) ne cp have "p = path"
      by (subst (asm) dfs_iterative_loop.simps) simp
    with P True show ?thesis by simp
  next
    case False
    show ?thesis
    proof (cases "current \<in> visited")
      case True
      with "1.prems"(1) ne cp False have "dfs_iterative_loop g goal (butlast stack) visited = Inr (Some p)"
        by (subst (asm) dfs_iterative_loop.simps) simp
      from "1.IH"(1)[OF ne cp[symmetric] refl refl False True this rest] show ?thesis .
    next
      case nv: False
      from "1.prems"(1) ne cp False nv obtain ns where ns: "neighbors g current = Inr ns"
        and run: "dfs_iterative_loop g goal
                 (push_neighbors (butlast stack) path (insert current visited) (rev (sort ns)))
                 (insert current visited) = Inr (Some p)"
        by (subst (asm) dfs_iterative_loop.simps) (simp split: sum.splits)
      have sp: "set path \<subseteq> insert current visited"
        using P(1,2,6) by (cases path rule: rev_cases) auto
      have inv: "\<forall>(n, q) \<in> set (push_neighbors (butlast stack) path (insert current visited) (rev (sort ns))).
          q \<noteq> [] \<and> last q = n \<and> hd q = start \<and> distinct q \<and>
          successively (edge g) q \<and> set (butlast q) \<subseteq> insert current visited"
      proof (clarify)
        fix n q assume "(n, q) \<in> set (push_neighbors (butlast stack) path (insert current visited) (rev (sort ns)))"
        then consider (old) "(n, q) \<in> set (butlast stack)"
          | (new) "q = path @ [n]" "n \<in> set ns" "n \<notin> insert current visited"
          by (auto simp: push_neighbors_def)
        then show "q \<noteq> [] \<and> last q = n \<and> hd q = start \<and> distinct q \<and>
          successively (edge g) q \<and> set (butlast q) \<subseteq> insert current visited"
        proof cases
          case old
          with rest show ?thesis by auto
        next
          case new
          have "edge g current n" using ns new(2) by (rule neighbors_Inr_edge)
          moreover have "n \<notin> set path" using sp new(3) by auto
          ultimately show ?thesis using new P sp
            by (simp add: successively_append_iff)
        qed
      qed
      from "1.IH"(2)[OF ne cp[symmetric] refl refl False nv ns run inv] show ?thesis .
    qed
  qed
qed

lemma dfs_path_iterative_sound:
  assumes "dfs_path_iterative g start goal = Inr (Some p)"
  shows "distinct p \<and> successively (edge g) p \<and> p \<noteq> [] \<and> hd p = start \<and> last p = goal"
proof -
  from assms have run: "dfs_iterative_loop g goal [(start, [start])] {} = Inr (Some p)"
    by (simp add: dfs_path_iterative_def split: if_splits)
  show ?thesis
    by (rule dfs_iterative_loop_sound[OF run]) simp
qed

text \<open>
  C3. Whenever either DFS variant returns a path, consecutive nodes of the path are joined
  by an edge of the graph and no node occurs twice; the path moreover leads from the start
  to the goal.
\<close>

theorem dfs_variants_return_simple_paths:
  "(dfs_path frames g start goal [] = Inr (Some p) \<longrightarrow>
      successively (edge g) p \<and> distinct p \<and> hd p = start \<and> last p = goal) \<and>
   (dfs_path_iterative g start goal = Inr (Some q) \<longrightarrow>
      successively (edge g) q \<and> distinct q \<and> hd q = start \<and> last q = goal)"
proof (intro conjI impI)
  assume r: "dfs_path frames g start goal [] = Inr (Some p)"
  have "distinct p \<and> successively (edge g) p \<and> prefix ([] @ [start]) p \<and> last p = goal"
    by (rule dfs_path_sound(1)[OF r]) simp_all
  then have a: "distinct p" "successively (edge g) p" "prefix [start] p" "last p = goal"
    by simp_all
  from a(3) obtain zs where "p = [start] @ zs" by (rule prefixE)
  then have "hd p = start" by simp
  with a show "successively (edge g) p" "distinct p" "hd p = start" "last p = goal"
    by simp_all
next
  assume r: "dfs_path_iterative g start goal = Inr (Some q)"
  from dfs_path_iterative_sound[OF r]
  show "successively (edge g) q" "distinct q" "hd q = start" "last q = goal"
    by simp_all
qed

theorem dfs_variants_return_simple_paths_witness:
  "dfs_path 4 chain_graph ''A'' ''D'' [] = Inr (Some [''A'', ''B'', ''C'', ''D'']) \<and>
   dfs_path_iterative chain_graph ''A'' ''D'' = Inr (Some [''A'', ''B'', ''C'', ''D'']) \<and>
   successively (edge chain_graph) [''A'', ''B'', ''C'', ''D''] \<and>
   distinct [''A'', ''B'', ''C'', ''D'']"
proof -
  have r: "dfs_path 4 chain_graph ''A'' ''D'' [] = Inr (Some [''A'', ''B'', ''C'', ''D''])"
    by code_simp
  have i: "dfs_path_iterative chain_graph ''A'' ''D'' = Inr (Some [''A'', ''B'', ''C'', ''D''])"
    by code_simp
  from dfs_variants_return_simple_paths[of 4 chain_graph "''A''" "''D''"
      "[''A'', ''B'', ''C'', ''D'']" "[''A'', ''B'', ''C'', ''D'']"] r i
  show ?thesis by blast
qed

text \<open>
  C9. The recursive DFS returns whenever the interpreter grants more frames than the graph
  has distinct nodes: every nested call extends the path by a node that is not on it, so
  the nesting never exceeds the number of nodes.
\<close>

theorem dfs_path_depth_bounded_by_nodes:
  "card (set (nodes g)) < frames \<Longrightarrow> \<exists>r. dfs_path frames g start goal [] = Inr r"
  using dfs_path_returns(1)[of start "[]" g frames goal] by simp

theorem dfs_path_depth_bounded_by_nodes_witness:
  "card (set (nodes chain_graph)) < 5 \<and> (\<exists>r. dfs_path 5 chain_graph ''A'' ''D'' [] = Inr r)"
proof -
  have h: "card (set (nodes chain_graph)) < 5"
    by (simp add: chain_graph_def nodes_def)
  from dfs_path_depth_bounded_by_nodes[OF h] h show ?thesis by blast
qed

text \<open>The bound is met: on the chain of four nodes, three frames do not suffice.\<close>

lemma dfs_path_chain_needs_four_frames:
  "dfs_path 3 chain_graph ''A'' ''D'' [] = Inl RecursionError"
  by code_simp

text \<open>
  With an endpoint that is not a node of the graph, the iterative variant returns \<^verbatim>\<open>None\<close>,
  and so does the recursive one when start and goal differ.
\<close>

lemma dfs_path_iterative_absent:
  "\<not> has_node g start \<or> \<not> has_node g goal \<Longrightarrow> dfs_path_iterative g start goal = Inr None"
  by (simp add: dfs_path_iterative_def)

lemma dfs_path_absent_start:
  "\<not> has_node g start \<Longrightarrow> start \<noteq> goal \<Longrightarrow> dfs_path (Suc frames) g start goal path = Inr None"
  by (simp add: Let_def)

text \<open>
  C5. The claim that both variants return \<^verbatim>\<open>None\<close> for an absent endpoint, also when start
  and goal are equal, fails for the recursive variant: it tests \<^verbatim>\<open>start == goal\<close> before
  \<^verbatim>\<open>start not in graph\<close>, so for a node \<^verbatim>\<open>X\<close> that the chain graph does not have it returns
  the one-node path, where the iterative variant returns \<^verbatim>\<open>None\<close>.
\<close>

theorem dfs_path_absent_start_equal_goal:
  "\<not> has_node chain_graph ''X'' \<and> dfs_path 1 chain_graph ''X'' ''X'' [] = Inr (Some [''X''])"
  by (simp add: chain_graph_def has_node_def nodes_def)

lemma dfs_path_iterative_absent_start_equal_goal:
  "dfs_path_iterative chain_graph ''X'' ''X'' = Inr None"
  by (simp add: chain_graph_def has_node_def nodes_def dfs_path_iterative_def)

section \<open>Properties of breadth-first search\<close>

definition fewest_edges :: "('v, 'w) graph \<Rightarrow> 'v \<Rightarrow> 'v \<Rightarrow> 'v list \<Rightarrow> bool" where
  "fewest_edges g s t p =
     (path_from_to g s t p \<and> (\<forall>q. path_from_to g s t q \<longrightarrow> length p - 1 \<le> length q - 1))"

definition scan_inv ::
  "('v, 'w) graph \<Rightarrow> 'v \<Rightarrow> 'v \<Rightarrow> 'v \<Rightarrow> 'v list \<Rightarrow> 'v list \<Rightarrow> ('v \<times> 'v list) list \<Rightarrow> 'v set \<Rightarrow> bool" where
  "scan_inv g start goal cur path rest q v =
     (start \<in> v \<and> goal \<notin> v \<and> cur \<in> v \<and> fewest_edges g start cur path \<and>
      (\<forall>(n, p) \<in> set q. fewest_edges g start n p \<and> n \<in> v \<and>
          length path \<le> length p \<and> length p \<le> length path + 1) \<and>
      sorted (map (length \<circ> snd) q) \<and>
      (\<forall>x \<in> v. x = cur \<or> x \<in> fst ` set q \<or> (\<forall>y. edge g x y \<longrightarrow> y \<in> v)) \<and>
      (\<forall>y. edge g cur y \<longrightarrow> y \<in> v \<or> y \<in> set rest) \<and>
      (\<forall>y \<in> set rest. edge g cur y))"

definition queue_inv ::
  "('v, 'w) graph \<Rightarrow> 'v \<Rightarrow> 'v \<Rightarrow> ('v \<times> 'v list) list \<Rightarrow> 'v set \<Rightarrow> bool" where
  "queue_inv g start goal q v =
     (start \<in> v \<and> goal \<notin> v \<and>
      (\<forall>(n, p) \<in> set q. fewest_edges g start n p \<and> n \<in> v) \<and>
      sorted (map (length \<circ> snd) q) \<and>
      (q \<noteq> [] \<longrightarrow> length (snd (last q)) \<le> length (snd (hd q)) + 1) \<and>
      (\<forall>x \<in> v. x \<in> fst ` set q \<or> (\<forall>y. edge g x y \<longrightarrow> y \<in> v)))"

lemma path_from_to_nonempty: "path_from_to g s t p \<Longrightarrow> p \<noteq> []"
  by (simp add: path_from_to_def is_path_def)

lemma path_from_to_length: "path_from_to g s t p \<Longrightarrow> 0 < length p"
  by (simp add: path_from_to_def is_path_def)

lemma path_from_to_has_node: "path_from_to g s t p \<Longrightarrow> has_node g s \<and> has_node g t"
proof -
  assume a: "path_from_to g s t p"
  then have "p \<noteq> []" "\<forall>x \<in> set p. has_node g x" "hd p = s" "last p = t"
    by (simp_all add: path_from_to_def is_path_def list_all_iff)
  then show ?thesis using hd_in_set[of p] last_in_set[of p] by blast
qed

lemma path_from_to_single: "has_node g s \<Longrightarrow> path_from_to g s s [s]"
  by (simp add: path_from_to_def is_path_def)

lemma path_from_to_snoc:
  assumes "path_from_to g s u p" "edge g u w" "has_node g w"
  shows "path_from_to g s w (p @ [w])"
  using assms by (auto simp: path_from_to_def is_path_def successively_append_iff)

lemma path_from_to_butlast:
  assumes "path_from_to g s w (xs @ [w'])" "xs \<noteq> []"
  shows "path_from_to g s (last xs) xs \<and> edge g (last xs) w'"
  using assms by (auto simp: path_from_to_def is_path_def successively_append_iff)

lemma frontier_lemma:
  assumes "start \<in> v"
    and "\<forall>x \<in> v. x \<in> F \<or> (\<forall>y. edge g x y \<longrightarrow> y \<in> v)"
    and "\<forall>x \<in> F. \<forall>q. path_from_to g start x q \<longrightarrow> L \<le> length q"
  shows "path_from_to g start w q' \<Longrightarrow> w \<notin> v \<Longrightarrow> L < length q'"
proof (induction q' arbitrary: w rule: rev_induct)
  case Nil
  then show ?case by (simp add: path_from_to_def is_path_def)
next
  case (snoc x xs)
  from snoc.prems(1) have xw: "x = w" by (simp add: path_from_to_def)
  show ?case
  proof (cases "xs = []")
    case True
    with snoc.prems(1) have "w = start" by (auto simp: path_from_to_def)
    with snoc.prems(2) assms(1) show ?thesis by simp
  next
    case False
    from path_from_to_butlast[OF snoc.prems(1) False]
    have pu: "path_from_to g start (last xs) xs" and e: "edge g (last xs) x" by simp_all
    show ?thesis
    proof (cases "last xs \<in> v")
      case True
      from e xw snoc.prems(2) have "\<not> (\<forall>y. edge g (last xs) y \<longrightarrow> y \<in> v)" by blast
      with assms(2) True have "last xs \<in> F" by blast
      with assms(3) pu have "L \<le> length xs" by blast
      then show ?thesis by simp
    next
      case nv: False
      from snoc.IH[OF pu nv] show ?thesis by simp
    qed
  qed
qed

lemma wf_graph_edge_has_node:
  assumes "wf_graph g" "edge g u y"
  shows "has_node g y"
proof -
  from assms(2) obtain es where es: "map_of g u = Some es" "y \<in> set (map fst es)"
    by (auto simp: edge_def split: option.splits)
  from es(1) have "(u, es) \<in> set g" by (rule map_of_SomeD)
  with assms(1) have "list_all (has_node g) (map fst es)"
    by (auto simp: wf_graph_def list_all_iff)
  with es(2) show ?thesis by (auto simp: list_all_iff)
qed

lemma neighbors_edge_iff: "neighbors g u = Inr ns \<Longrightarrow> edge g u y = (y \<in> set ns)"
  by (force simp: neighbors_def edge_def split: option.splits)

lemma fewest_edgesD:
  assumes "fewest_edges g s t p" "path_from_to g s t q"
  shows "length p \<le> length q"
proof -
  from assms have "length p - 1 \<le> length q - 1" by (simp add: fewest_edges_def)
  moreover from assms(2) have "0 < length q" by (rule path_from_to_length)
  ultimately show ?thesis by linarith
qed

lemma fewest_edgesI:
  assumes "path_from_to g s t p" "\<And>q. path_from_to g s t q \<Longrightarrow> length p \<le> length q"
  shows "fewest_edges g s t p"
  unfolding fewest_edges_def using assms by (simp add: diff_le_mono)

lemma fewest_edges_path: "fewest_edges g s t p \<Longrightarrow> path_from_to g s t p"
  by (simp add: fewest_edges_def)

lemma scan_invD:
  assumes "scan_inv g start goal cur path rest q v"
  shows "start \<in> v" "goal \<notin> v" "cur \<in> v" "fewest_edges g start cur path"
    "\<And>n p. (n, p) \<in> set q \<Longrightarrow> fewest_edges g start n p \<and> n \<in> v \<and>
        length path \<le> length p \<and> length p \<le> length path + 1"
    "sorted (map (length \<circ> snd) q)"
    "\<And>x. x \<in> v \<Longrightarrow> x = cur \<or> x \<in> fst ` set q \<or> (\<forall>y. edge g x y \<longrightarrow> y \<in> v)"
    "\<And>y. edge g cur y \<Longrightarrow> y \<in> v \<or> y \<in> set rest"
    "\<And>y. y \<in> set rest \<Longrightarrow> edge g cur y"
  using assms unfolding scan_inv_def by blast+

lemma scan_invI:
  assumes "start \<in> v" "goal \<notin> v" "cur \<in> v" "fewest_edges g start cur path"
    "\<And>n p. (n, p) \<in> set q \<Longrightarrow> fewest_edges g start n p \<and> n \<in> v \<and>
        length path \<le> length p \<and> length p \<le> length path + 1"
    "sorted (map (length \<circ> snd) q)"
    "\<And>x. x \<in> v \<Longrightarrow> x = cur \<or> x \<in> fst ` set q \<or> (\<forall>y. edge g x y \<longrightarrow> y \<in> v)"
    "\<And>y. edge g cur y \<Longrightarrow> y \<in> v \<or> y \<in> set rest"
    "\<And>y. y \<in> set rest \<Longrightarrow> edge g cur y"
  shows "scan_inv g start goal cur path rest q v"
  unfolding scan_inv_def
  apply (intro conjI)
          apply (rule assms(1))
         apply (rule assms(2))
        apply (rule assms(3))
       apply (rule assms(4))
      apply (clarify, rule assms(5), assumption)
     apply (rule assms(6))
    apply (intro ballI, rule assms(7), assumption)
   apply (intro allI impI, rule assms(8), assumption)
  apply (intro ballI, rule assms(9), assumption)
  done

lemma scan_inv_frontier:
  assumes inv: "scan_inv g start goal cur path rest q v"
    and p: "path_from_to g start w q'" and w: "w \<notin> v"
  shows "length path < length q'"
proof (rule frontier_lemma[where F = "insert cur (fst ` set q)", OF _ _ _ p w])
  show "start \<in> v" by (rule scan_invD(1)[OF inv])
  show "\<forall>x\<in>v. x \<in> insert cur (fst ` set q) \<or> (\<forall>y. edge g x y \<longrightarrow> y \<in> v)"
    using scan_invD(7)[OF inv] by blast
  show "\<forall>x\<in>insert cur (fst ` set q). \<forall>r. path_from_to g start x r \<longrightarrow> length path \<le> length r"
  proof (intro ballI allI impI)
    fix x r assume x: "x \<in> insert cur (fst ` set q)" and r: "path_from_to g start x r"
    show "length path \<le> length r"
    proof (cases "x = cur")
      case True
      with r scan_invD(4)[OF inv] show ?thesis by (auto dest: fewest_edgesD)
    next
      case False
      with x obtain pp where "(x, pp) \<in> set q" by auto
      from scan_invD(5)[OF inv this] have "fewest_edges g start x pp" "length path \<le> length pp"
        by simp_all
      with r show ?thesis using fewest_edgesD by fastforce
    qed
  qed
qed

lemma scan_inv_skip:
  assumes inv: "scan_inv g start goal cur path (n # rest) q v" and n: "n \<in> v"
  shows "scan_inv g start goal cur path rest q v"
proof (rule scan_invI)
  show "\<And>y. edge g cur y \<Longrightarrow> y \<in> v \<or> y \<in> set rest"
    using scan_invD(8)[OF inv] n by auto
  show "\<And>y. y \<in> set rest \<Longrightarrow> edge g cur y"
    using scan_invD(9)[OF inv] by simp
qed (rule scan_invD[OF inv]; assumption?)+

lemma scan_inv_new_path:
  assumes wf: "wf_graph g" and inv: "scan_inv g start goal cur path (n # rest) q v"
    and n: "n \<notin> v"
  shows "fewest_edges g start n (path @ [n])"
proof (rule fewest_edgesI)
  have e: "edge g cur n" using scan_invD(9)[OF inv] by simp
  have "path_from_to g start cur path"
    using scan_invD(4)[OF inv] by (rule fewest_edges_path)
  then show "path_from_to g start n (path @ [n])"
    using e wf_graph_edge_has_node[OF wf e] by (rule path_from_to_snoc)
next
  fix r assume "path_from_to g start n r"
  from scan_inv_frontier[OF inv this n] show "length (path @ [n]) \<le> length r" by simp
qed

lemma scan_inv_push:
  assumes wf: "wf_graph g" and inv: "scan_inv g start goal cur path (n # rest) q v"
    and n: "n \<notin> v" and ng: "n \<noteq> goal"
  shows "scan_inv g start goal cur path rest (q @ [(n, path @ [n])]) (insert n v)"
proof (rule scan_invI)
  show "start \<in> insert n v" using scan_invD(1)[OF inv] by simp
  show "goal \<notin> insert n v" using scan_invD(2)[OF inv] ng by simp
  show "cur \<in> insert n v" using scan_invD(3)[OF inv] by simp
  show "fewest_edges g start cur path" by (rule scan_invD(4)[OF inv])
  show "fewest_edges g start m p \<and> m \<in> insert n v \<and>
        length path \<le> length p \<and> length p \<le> length path + 1"
    if "(m, p) \<in> set (q @ [(n, path @ [n])])" for m p
  proof (cases "(m, p) \<in> set q")
    case True
    from scan_invD(5)[OF inv True] show ?thesis by simp
  next
    case False
    with that have "m = n" "p = path @ [n]" by simp_all
    with scan_inv_new_path[OF wf inv n] show ?thesis by simp
  qed
  have "\<forall>x \<in> set q. length (snd x) \<le> length path + 1"
    using scan_invD(5)[OF inv] by fastforce
  with scan_invD(6)[OF inv]
  show "sorted (map (length \<circ> snd) (q @ [(n, path @ [n])]))"
    by (auto simp: sorted_append)
  show "x = cur \<or> x \<in> fst ` set (q @ [(n, path @ [n])]) \<or> (\<forall>y. edge g x y \<longrightarrow> y \<in> insert n v)"
    if "x \<in> insert n v" for x
  proof (cases "x = n")
    case True
    then show ?thesis by simp
  next
    case False
    with that have "x \<in> v" by simp
    from scan_invD(7)[OF inv this] show ?thesis by auto
  qed
  show "\<And>y. edge g cur y \<Longrightarrow> y \<in> insert n v \<or> y \<in> set rest"
    using scan_invD(8)[OF inv] by auto
  show "\<And>y. y \<in> set rest \<Longrightarrow> edge g cur y"
    using scan_invD(9)[OF inv] by simp
qed

lemma bfs_neighbors_inv:
  assumes wf: "wf_graph g"
  shows "scan_inv g start goal cur path rest q v \<Longrightarrow>
     (case bfs_neighbors goal path rest q v of
        Inl r \<Rightarrow> fewest_edges g start goal r
      | Inr (q', v') \<Rightarrow> scan_inv g start goal cur path [] q' v')"
proof (induction rest arbitrary: q v)
  case Nil
  then show ?case by simp
next
  case (Cons n rest)
  show ?case
  proof (cases "n \<in> v")
    case True
    from Cons.IH[OF scan_inv_skip[OF Cons.prems True]] True show ?thesis by simp
  next
    case False
    show ?thesis
    proof (cases "n = goal")
      case True
      with scan_inv_new_path[OF wf Cons.prems False] False show ?thesis
        by (simp add: Let_def)
    next
      case ng: False
      from Cons.IH[OF scan_inv_push[OF wf Cons.prems False ng]] False ng show ?thesis
        by (simp add: Let_def)
    qed
  qed
qed

lemma sorted_le_last:
  assumes "sorted xs" "x \<in> set xs"
  shows "x \<le> last xs"
proof -
  from assms(2) have ne: "xs \<noteq> []" by auto
  then have "xs = butlast xs @ [last xs]" by simp
  with assms(1) have "sorted (butlast xs @ [last xs])" by simp
  then have "\<forall>y \<in> set (butlast xs). y \<le> last xs" by (simp add: sorted_append)
  moreover from assms(2) ne have "x \<in> set (butlast xs) \<or> x = last xs"
    by (metis append_butlast_last_id in_set_conv_decomp_first rotate1.simps(2) set_ConsD set_rotate1)
  ultimately show ?thesis by auto
qed

lemma queue_invD:
  assumes "queue_inv g start goal q v"
  shows "start \<in> v" "goal \<notin> v"
    "\<And>n p. (n, p) \<in> set q \<Longrightarrow> fewest_edges g start n p \<and> n \<in> v"
    "sorted (map (length \<circ> snd) q)"
    "q \<noteq> [] \<Longrightarrow> length (snd (last q)) \<le> length (snd (hd q)) + 1"
    "\<And>x. x \<in> v \<Longrightarrow> x \<in> fst ` set q \<or> (\<forall>y. edge g x y \<longrightarrow> y \<in> v)"
  using assms unfolding queue_inv_def by blast+

lemma queue_inv_init:
  assumes "has_node g start" "start \<noteq> goal"
  shows "queue_inv g start goal [(start, [start])] {start}"
proof -
  have "fewest_edges g start start [start]"
  proof (rule fewest_edgesI)
    show "path_from_to g start start [start]" using assms(1) by (rule path_from_to_single)
    fix q assume "path_from_to g start start q"
    from path_from_to_length[OF this] show "length [start] \<le> length q" by (cases q) simp_all
  qed
  with assms(2) show ?thesis by (simp add: queue_inv_def)
qed

lemma queue_inv_pop:
  assumes inv: "queue_inv g start goal ((cur, path) # q) v" and ns: "neighbors g cur = Inr ns"
  shows "scan_inv g start goal cur path (sort ns) q v"
proof (rule scan_invI)
  show "start \<in> v" "goal \<notin> v" by (rule queue_invD[OF inv])+
  from queue_invD(3)[OF inv, of cur path] show "cur \<in> v" "fewest_edges g start cur path"
    by simp_all
  have srt: "sorted (map (length \<circ> snd) ((cur, path) # q))" by (rule queue_invD(4)[OF inv])
  then show "sorted (map (length \<circ> snd) q)" by simp
  show "fewest_edges g start n p \<and> n \<in> v \<and> length path \<le> length p \<and> length p \<le> length path + 1"
    if np: "(n, p) \<in> set q" for n p
  proof -
    from queue_invD(3)[OF inv, of n p] np have a: "fewest_edges g start n p \<and> n \<in> v" by simp
    from srt np have b: "length path \<le> length p" by auto
    from np have ne: "q \<noteq> []" by auto
    from srt have "sorted (map (length \<circ> snd) q)" by simp
    moreover from np have "length p \<in> set (map (length \<circ> snd) q)" by force
    ultimately have "length p \<le> last (map (length \<circ> snd) q)" by (rule sorted_le_last)
    also have "\<dots> = length (snd (last q))" using ne by (simp add: last_map)
    also have "\<dots> \<le> length path + 1" using queue_invD(5)[OF inv] ne by simp
    finally show ?thesis using a b by simp
  qed
  show "x = cur \<or> x \<in> fst ` set q \<or> (\<forall>y. edge g x y \<longrightarrow> y \<in> v)" if "x \<in> v" for x
    using queue_invD(6)[OF inv that] by auto
  show "\<And>y. edge g cur y \<Longrightarrow> y \<in> v \<or> y \<in> set (sort ns)"
    using neighbors_edge_iff[OF ns] by simp
  show "\<And>y. y \<in> set (sort ns) \<Longrightarrow> edge g cur y"
    using neighbors_edge_iff[OF ns] by simp
qed

lemma scan_inv_done:
  assumes inv: "scan_inv g start goal cur path [] q v"
  shows "queue_inv g start goal q v"
  unfolding queue_inv_def
proof (intro conjI)
  show "start \<in> v" "goal \<notin> v" by (rule scan_invD[OF inv])+
  show "\<forall>(n, p)\<in>set q. fewest_edges g start n p \<and> n \<in> v"
    using scan_invD(5)[OF inv] by blast
  show "sorted (map (length \<circ> snd) q)" by (rule scan_invD(6)[OF inv])
  show "q \<noteq> [] \<longrightarrow> length (snd (last q)) \<le> length (snd (hd q)) + 1"
  proof
    assume ne: "q \<noteq> []"
    then have "last q \<in> set q" "hd q \<in> set q" by simp_all
    then have "(fst (last q), snd (last q)) \<in> set q" "(fst (hd q), snd (hd q)) \<in> set q" by simp_all
    from scan_invD(5)[OF inv this(1)] scan_invD(5)[OF inv this(2)]
    show "length (snd (last q)) \<le> length (snd (hd q)) + 1" by linarith
  qed
  show "\<forall>x\<in>v. x \<in> fst ` set q \<or> (\<forall>y. edge g x y \<longrightarrow> y \<in> v)"
  proof
    fix x assume "x \<in> v"
    from scan_invD(7)[OF inv this] scan_invD(8)[OF inv]
    show "x \<in> fst ` set q \<or> (\<forall>y. edge g x y \<longrightarrow> y \<in> v)" by auto
  qed
qed

lemma queue_inv_empty:
  assumes inv: "queue_inv g start goal [] v"
  shows "\<not> path_from_to g start goal r"
proof
  assume r: "path_from_to g start goal r"
  have "length r < length r"
  proof (rule frontier_lemma[where F = "{}", OF _ _ _ r])
    show "start \<in> v" "goal \<notin> v" by (rule queue_invD[OF inv])+
    show "\<forall>x\<in>v. x \<in> {} \<or> (\<forall>y. edge g x y \<longrightarrow> y \<in> v)"
      using queue_invD(6)[OF inv] by simp
    show "\<forall>x\<in>{}. \<forall>q. path_from_to g start x q \<longrightarrow> length r \<le> length q" by simp
  qed
  then show False by simp
qed

lemma bfs_loop_correct:
  "wf_graph g \<Longrightarrow> path_from_to g start goal p0 \<Longrightarrow> queue_inv g start goal q v \<Longrightarrow>
    \<exists>r. bfs_loop g goal q v = Inr (Some r) \<and> fewest_edges g start goal r"
proof (induction g goal q v rule: bfs_loop.induct)
  case (1 g goal visited)
  from queue_inv_empty[OF "1.prems"(3)] "1.prems"(2) show ?case by blast
next
  case (2 g goal current path queue visited)
  note wf = "2.prems"(1) and conn = "2.prems"(2)
  from queue_invD(3)[OF "2.prems"(3), of current path]
  have "fewest_edges g start current path" by simp
  then have "has_node g current"
    using fewest_edges_path path_from_to_has_node by fast
  from has_node_neighbors[OF this] obtain nbs where nbs: "neighbors g current = Inr nbs" ..
  have sc: "scan_inv g start goal current path (sort nbs) queue visited"
    using "2.prems"(3) nbs by (rule queue_inv_pop)
  note post = bfs_neighbors_inv[OF wf sc]
  show ?case
  proof (cases "bfs_neighbors goal path (sort nbs) queue visited")
    case (Inl r)
    with post have "fewest_edges g start goal r" by simp
    moreover have "bfs_loop g goal ((current, path) # queue) visited = Inr (Some r)"
      using nbs Inl by (simp add: bfs_loop.simps)
    ultimately show ?thesis by blast
  next
    case (Inr x)
    obtain q' v' where x: "x = (q', v')" by (cases x)
    with post Inr have "scan_inv g start goal current path [] q' v'" by simp
    then have qi: "queue_inv g start goal q' v'" by (rule scan_inv_done)
    have "bfs_loop g goal ((current, path) # queue) visited = bfs_loop g goal q' v'"
      using nbs Inr x by (simp add: bfs_loop.simps)
    with "2.IH"[OF nbs Inr x[symmetric] wf conn qi] show ?thesis by simp
  qed
qed

text \<open>
  C2. When some path leads from start to goal, \<open>bfs_path\<close> returns a path from start to
  goal, and no path between the two (simple or not) has fewer edges.
\<close>

theorem bfs_path_fewest_edges:
  assumes "wf_graph g" and "path_from_to g start goal p0"
  shows "\<exists>p. bfs_path g start goal = Inr (Some p) \<and> path_from_to g start goal p \<and>
           (\<forall>q. path_from_to g start goal q \<longrightarrow> length p - 1 \<le> length q - 1)"
proof -
  from path_from_to_has_node[OF assms(2)] have hn: "has_node g start" "has_node g goal"
    by simp_all
  show ?thesis
  proof (cases "start = goal")
    case True
    with hn have "bfs_path g start goal = Inr (Some [start])" by (simp add: bfs_path_def)
    moreover have "path_from_to g start goal [start]"
      using True path_from_to_single[OF hn(1)] by simp
    ultimately show ?thesis by simp
  next
    case False
    with hn have "bfs_path g start goal = bfs_loop g goal [(start, [start])] {start}"
      by (simp add: bfs_path_def)
    moreover from bfs_loop_correct[OF assms queue_inv_init[OF hn(1) False]]
    obtain r where "bfs_loop g goal [(start, [start])] {start} = Inr (Some r)"
      "fewest_edges g start goal r" by blast
    ultimately show ?thesis unfolding fewest_edges_def by auto
  qed
qed

theorem bfs_path_fewest_edges_witness:
  "wf_graph chain_graph \<and> path_from_to chain_graph ''A'' ''D'' [''A'', ''B'', ''C'', ''D''] \<and>
   bfs_path chain_graph ''A'' ''D'' = Inr (Some [''A'', ''B'', ''C'', ''D'']) \<and>
   (\<exists>p. bfs_path chain_graph ''A'' ''D'' = Inr (Some p) \<and> path_from_to chain_graph ''A'' ''D'' p \<and>
      (\<forall>q. path_from_to chain_graph ''A'' ''D'' q \<longrightarrow> length p - 1 \<le> length q - 1))"
proof -
  have w: "wf_graph chain_graph" by code_simp
  have p: "path_from_to chain_graph ''A'' ''D'' [''A'', ''B'', ''C'', ''D'']" by code_simp
  have r: "bfs_path chain_graph ''A'' ''D'' = Inr (Some [''A'', ''B'', ''C'', ''D''])" by code_simp
  from bfs_path_fewest_edges[OF w p] w p r show ?thesis by blast
qed

section \<open>Properties of the travel times\<close>

lemma map_of_map_keyed:
  "map_of (map (\<lambda>(k, x). (k, f k x)) xs) k = map_option (f k) (map_of xs k)"
  by (induction xs) auto

lemma edge_data_add_travel_times:
  "edge_data (add_travel_times hash G) u v =
     (case edge_data G u v of
        Inl e \<Rightarrow> Inl e
      | Inr d0 \<Rightarrow> Inr (d0\<lparr>weight := Some (travel_time hash u v d0)\<rparr>))"
  by (simp add: edge_data_def add_travel_times_def map_of_map_keyed split: option.splits)

lemma py_round1_tenths: "py_round1 (of_int n / 10) = of_int n / 10"
  by (simp add: py_round1_def)

lemma travel_time_transfer: "line d0 = Some ''transfer'' \<Longrightarrow> travel_time hash u v d0 = 5"
  by (simp add: travel_time_def)

lemma travel_time_other:
  assumes "line d0 \<noteq> Some ''transfer''"
  shows "travel_time hash u v d0 = 2.5 + of_int ((hash u + hash v) mod 10) / 10"
proof -
  let ?m = "(hash u + hash v) mod 10"
  have eq: "(2.5 :: real) + of_int ?m / 10 = of_int (25 + ?m) / 10" by simp
  have "py_round1 (2.5 + of_int ?m / 10) = 2.5 + of_int ?m / 10"
    unfolding eq by (rule py_round1_tenths)
  moreover have "(case line d0 of None \<Rightarrow> ''unknown'' | Some l \<Rightarrow> l) \<noteq> ''transfer''"
    using assms by (cases "line d0") simp_all
  ultimately show ?thesis by (simp add: travel_time_def Let_def)
qed

lemma variation_range:
  "0 \<le> (of_int ((h :: int) mod 10) / 10 :: real) \<and> (of_int (h mod 10) / 10 :: real) \<le> 0.9"
proof -
  have "0 \<le> h mod 10" "h mod 10 \<le> 9" by simp_all
  then have "(0 :: real) \<le> of_int (h mod 10)" "(of_int (h mod 10) :: real) \<le> 9"
    by linarith+
  then show ?thesis by simp
qed

lemma travel_time_range:
  "(line d0 = Some ''transfer'' \<longrightarrow> travel_time hash u v d0 = 5) \<and>
   (line d0 \<noteq> Some ''transfer'' \<longrightarrow> 2.5 \<le> travel_time hash u v d0 \<and> travel_time hash u v d0 \<le> 3.4)"
  using variation_range[of "hash u + hash v"]
  by (auto simp: travel_time_transfer travel_time_other)

lemma nonneg_weights_add_travel_times: "nonneg_weights (add_travel_times hash G)"
proof -
  have "0 \<le> travel_time hash u v d0" for u v and d0 :: "real edata"
    using travel_time_range[of d0 hash u v] by (cases "line d0 = Some ''transfer''") auto
  then show ?thesis
    by (auto simp: nonneg_weights_def add_travel_times_def list_all_iff edge_weight_def)
qed

lemma nodes_add_travel_times: "nodes (add_travel_times hash G) = nodes G"
  by (induction G) (auto simp: nodes_def add_travel_times_def)

lemma neighbors_add_travel_times: "neighbors (add_travel_times hash G) n = neighbors G n"
  by (cases "map_of G n")
    (auto simp: neighbors_def add_travel_times_def map_of_map_keyed split: prod.splits)

lemma edge_cost_add_travel_times:
  "edge_data G u v = Inr d0 \<Longrightarrow> edge_cost (add_travel_times hash G) u v = travel_time hash u v d0"
  by (simp add: edge_cost_def edge_data_add_travel_times edge_weight_def)

text \<open>
  C8. \<open>add_travel_times\<close> returns a graph with the nodes and the neighbour lists of its
  input and no edge that the input lacks, in which every edge of the input keeps its label
  and has its weight set: to 5 for a transfer edge, and to 2.5 plus the variation
  \<open>((hash u + hash v) mod 10) / 10\<close>, which lies between 0 and 0.9, for any other edge. Hence
  all weights are non-negative and a transfer edge is strictly heavier than any other edge.
\<close>

theorem add_travel_times_weights:
  assumes "edge_data G u v = Inr d0"
  shows "\<exists>variation.
           variation = of_int ((hash u + hash v) mod 10) / 10 \<and>
           0 \<le> variation \<and> variation \<le> 0.9 \<and>
           edge_data (add_travel_times hash G) u v =
             Inr (d0\<lparr>weight := Some (if line d0 = Some ''transfer'' then 5 else 2.5 + variation)\<rparr>) \<and>
           nodes (add_travel_times hash G) = nodes G \<and>
           (\<forall>n. neighbors (add_travel_times hash G) n = neighbors G n) \<and>
           (\<forall>a b e. edge_data G a b = Inl e \<longrightarrow>
               edge_data (add_travel_times hash G) a b = Inl e) \<and>
           0 \<le> edge_cost (add_travel_times hash G) u v \<and>
           nonneg_weights (add_travel_times hash G) \<and>
           (\<forall>u' v' d1. edge_data G u' v' = Inr d1 \<longrightarrow>
               line d0 = Some ''transfer'' \<longrightarrow> line d1 \<noteq> Some ''transfer'' \<longrightarrow>
               edge_cost (add_travel_times hash G) u' v' < edge_cost (add_travel_times hash G) u v)"
proof -
  let ?var = "of_int ((hash u + hash v) mod 10) / 10 :: real"
  have t: "travel_time hash u v d0 = (if line d0 = Some ''transfer'' then 5 else 2.5 + ?var)"
    by (simp add: travel_time_transfer travel_time_other)
  have r: "0 \<le> ?var" "?var \<le> 0.9" using variation_range[of "hash u + hash v"] by simp_all
  have e: "edge_data (add_travel_times hash G) u v =
      Inr (d0\<lparr>weight := Some (if line d0 = Some ''transfer'' then 5 else 2.5 + ?var)\<rparr>)"
    using assms t by (simp add: edge_data_add_travel_times)
  have c: "edge_cost (add_travel_times hash G) u v = travel_time hash u v d0"
    using assms by (rule edge_cost_add_travel_times)
  have nn: "0 \<le> edge_cost (add_travel_times hash G) u v"
    unfolding c t using r by simp
  have heavier:
    "edge_cost (add_travel_times hash G) u' v' < edge_cost (add_travel_times hash G) u v"
    if "edge_data G u' v' = Inr d1" "line d0 = Some ''transfer''" "line d1 \<noteq> Some ''transfer''"
    for u' v' d1
  proof -
    from that(3) travel_time_range[of d1 hash u' v'] have "travel_time hash u' v' d1 \<le> 3.4"
      by simp
    moreover from that(2) have "travel_time hash u v d0 = 5" by (rule travel_time_transfer)
    ultimately show ?thesis
      unfolding c edge_cost_add_travel_times[OF that(1)] by simp
  qed
  have absent: "edge_data (add_travel_times hash G) a b = Inl e'"
    if "edge_data G a b = Inl e'" for a b e'
    using that by (simp add: edge_data_add_travel_times)
  from e r nn heavier absent nonneg_weights_add_travel_times[of hash G]
    nodes_add_travel_times[of hash G] neighbors_add_travel_times[of hash G]
  show ?thesis
    by (intro exI[of _ ?var]) simp
qed

theorem add_travel_times_weights_witness:
  "edge_data metro_sample ''Teatralna'' ''Zoloti Vorota''
     = Inr \<lparr>line = Some ''transfer'', weight = Some 0.5\<rparr> \<and>
   edge_data (add_travel_times length metro_sample) ''Teatralna'' ''Zoloti Vorota''
     = Inr \<lparr>line = Some ''transfer'', weight = Some 5\<rparr> \<and>
   edge_data (add_travel_times length metro_sample) ''Zoloti Vorota'' ''Teatralna''
     = Inr \<lparr>line = Some ''transfer'', weight = Some 5\<rparr> \<and>
   edge_data (add_travel_times length metro_sample) ''Teatralna'' ''Khreshchatyk''
     = Inr \<lparr>line = Some ''red'', weight = Some 2.6\<rparr> \<and>
   edge_data (add_travel_times length metro_sample) ''Teatralna'' ''Universytet''
     = Inr \<lparr>line = Some ''red'', weight = Some 2.5\<rparr> \<and>
   neighbors (add_travel_times length metro_sample) ''Teatralna''
     = Inr [''Universytet'', ''Khreshchatyk'', ''Zoloti Vorota''] \<and>
   edge_cost (add_travel_times length metro_sample) ''Teatralna'' ''Khreshchatyk''
     < edge_cost (add_travel_times length metro_sample) ''Teatralna'' ''Zoloti Vorota''"
proof -
  have z: "edge_data metro_sample ''Teatralna'' ''Zoloti Vorota''
     = Inr \<lparr>line = Some ''transfer'', weight = Some 0.5\<rparr>"
    by (simp add: edge_data_def metro_sample_def)
  have z': "edge_data metro_sample ''Zoloti Vorota'' ''Teatralna''
     = Inr \<lparr>line = Some ''transfer'', weight = Some 0.5\<rparr>"
    by (simp add: edge_data_def metro_sample_def)
  have k: "edge_data metro_sample ''Teatralna'' ''Khreshchatyk''
     = Inr \<lparr>line = Some ''red'', weight = Some 1\<rparr>"
    by (simp add: edge_data_def metro_sample_def)
  have u: "edge_data metro_sample ''Teatralna'' ''Universytet''
     = Inr \<lparr>line = Some ''red'', weight = Some 1\<rparr>"
    by (simp add: edge_data_def metro_sample_def)
  have n: "neighbors metro_sample ''Teatralna''
     = Inr [''Universytet'', ''Khreshchatyk'', ''Zoloti Vorota'']"
    by (simp add: neighbors_def metro_sample_def)
  have az: "edge_data (add_travel_times length metro_sample) ''Teatralna'' ''Zoloti Vorota''
     = Inr \<lparr>line = Some ''transfer'', weight = Some 5\<rparr>"
    using add_travel_times_weights[OF z, of length] by auto
  have an: "neighbors (add_travel_times length metro_sample) ''Teatralna''
     = Inr [''Universytet'', ''Khreshchatyk'', ''Zoloti Vorota'']"
    using add_travel_times_weights[OF z, of length] n by auto
  have ah: "edge_cost (add_travel_times length metro_sample) ''Teatralna'' ''Khreshchatyk''
     < edge_cost (add_travel_times length metro_sample) ''Teatralna'' ''Zoloti Vorota''"
    using add_travel_times_weights[OF z, of length] k by auto
  have az': "edge_data (add_travel_times length metro_sample) ''Zoloti Vorota'' ''Teatralna''
     = Inr \<lparr>line = Some ''transfer'', weight = Some 5\<rparr>"
    using add_travel_times_weights[OF z', of length] by auto
  have ak: "edge_data (add_travel_times length metro_sample) ''Teatralna'' ''Khreshchatyk''
     = Inr \<lparr>line = Some ''red'', weight = Some 2.6\<rparr>"
    using add_travel_times_weights[OF k, of length] by auto
  have au: "edge_data (add_travel_times length metro_sample) ''Teatralna'' ''Universytet''
     = Inr \<lparr>line = Some ''red'', weight = Some 2.5\<rparr>"
    using add_travel_times_weights[OF u, of length] by auto
  from z az az' ak au an ah show ?thesis by (intro conjI)
qed

section \<open>Unfolding and induction rules for the Dijkstra loop\<close>

lemma heappop_eq:
  "heappop h = ((d, u), h') \<longleftrightarrow> (d, u) = least_tuple (hd h) (tl h) \<and> h' = remove1 (d, u) h"
  by (auto simp: heappop_def Let_def)

lemma dijkstra_loop_Nil: "dijkstra_loop g D P [] V = Inr (D, P)"
  by (simp add: dijkstra_loop.simps)

lemma dijkstra_loop_visited:
  "pq \<noteq> [] \<Longrightarrow> heappop pq = ((d, u), pq') \<Longrightarrow> u \<in> V \<Longrightarrow>
   dijkstra_loop g D P pq V = dijkstra_loop g D P pq' V"
  by (subst dijkstra_loop.simps) simp

lemma dijkstra_loop_KeyError:
  "pq \<noteq> [] \<Longrightarrow> heappop pq = ((d, u), pq') \<Longrightarrow> u \<notin> V \<Longrightarrow> D u = None \<Longrightarrow>
   dijkstra_loop g D P pq V = Inl KeyError"
  by (subst dijkstra_loop.simps) simp

lemma dijkstra_loop_stale:
  "pq \<noteq> [] \<Longrightarrow> heappop pq = ((d, u), pq') \<Longrightarrow> u \<notin> V \<Longrightarrow> D u = Some dc \<Longrightarrow> gt_dist d dc \<Longrightarrow>
   dijkstra_loop g D P pq V = dijkstra_loop g D P pq' (insert u V)"
  by (subst dijkstra_loop.simps) simp

lemma dijkstra_loop_expand:
  "pq \<noteq> [] \<Longrightarrow> heappop pq = ((d, u), pq') \<Longrightarrow> u \<notin> V \<Longrightarrow> D u = Some dc \<Longrightarrow> \<not> gt_dist d dc \<Longrightarrow>
   dijkstra_loop g D P pq V =
     (case neighbors g u of
        Inl e \<Rightarrow> Inl e
      | Inr ns \<Rightarrow>
          (case relax g u d (insert u V) ns D P pq' of
             Inl e \<Rightarrow> Inl e
           | Inr (D', P', pq'') \<Rightarrow> dijkstra_loop g D' P' pq'' (insert u V)))"
  by (subst dijkstra_loop.simps) (simp add: Let_def)

lemma dijkstra_loop_induct [consumes 0, case_names step]:
  assumes "\<And>D P pq V.
     (\<And>d u pq'. pq \<noteq> [] \<Longrightarrow> heappop pq = ((d, u), pq') \<Longrightarrow> u \<in> V \<Longrightarrow> Q D P pq' V) \<Longrightarrow>
     (\<And>d u pq' dc. pq \<noteq> [] \<Longrightarrow> heappop pq = ((d, u), pq') \<Longrightarrow> u \<notin> V \<Longrightarrow>
         D u = Some dc \<Longrightarrow> gt_dist d dc \<Longrightarrow> Q D P pq' (insert u V)) \<Longrightarrow>
     (\<And>d u pq' dc ns D' P' pq''. pq \<noteq> [] \<Longrightarrow> heappop pq = ((d, u), pq') \<Longrightarrow> u \<notin> V \<Longrightarrow>
         D u = Some dc \<Longrightarrow> \<not> gt_dist d dc \<Longrightarrow> neighbors g u = Inr ns \<Longrightarrow>
         relax g u d (insert u V) ns D P pq' = Inr (D', P', pq'') \<Longrightarrow> Q D' P' pq'' (insert u V)) \<Longrightarrow>
     Q D P pq V"
  shows "Q D P pq V"
proof -
  have "g' = g \<Longrightarrow> Q D P pq V" for g'
  proof (induction g' D P pq V rule: dijkstra_loop.induct)
    case (1 g' distances previous priority_queue visited)
    note g = "1.prems"
    show ?case
    proof (rule assms, goal_cases)
      case (1 d u pq')
      show ?case by (rule "1.IH"(1)[OF 1(1) refl 1(2)[symmetric] refl refl 1(3) g])
    next
      case (2 d u pq' dc)
      show ?case by (rule "1.IH"(2)[OF 2(1) refl 2(2)[symmetric] refl refl 2(3) refl 2(4) 2(5) g])
    next
      case (3 d u pq' dc ns D' P' pq'')
      from 3(6,7) g have n: "neighbors g' u = Inr ns"
        and r: "relax g' u d (insert u visited) ns distances previous pq' = Inr (D', P', pq'')"
        by simp_all
      show ?case
        by (rule "1.IH"(3)[OF 3(1) refl 3(2)[symmetric] refl refl 3(3) refl 3(4) 3(5) n r refl refl g])
    qed
  qed
  then show ?thesis by simp
qed

section \<open>Scaling the weights\<close>

definition scale_entry :: "'w::linordered_idom \<Rightarrow> 'w \<times> 'v \<Rightarrow> 'w \<times> 'v" where
  "scale_entry k x = (k * fst x, snd x)"

definition scale_distances :: "'w::linordered_idom \<Rightarrow> ('v \<rightharpoonup> 'w dist) \<Rightarrow> ('v \<rightharpoonup> 'w dist)" where
  "scale_distances k D = (\<lambda>node. map_option (scale_dist k) (D node))"

lemma nodes_scale_weights: "nodes (scale_weights k g) = nodes g"
  by (induction g) (auto simp: nodes_def scale_weights_def)

lemma map_of_scale_weights:
  "map_of (scale_weights k g) u =
     map_option (map (\<lambda>(v, data). (v, data\<lparr>weight := Some (k * edge_weight data)\<rparr>))) (map_of g u)"
  unfolding scale_weights_def by (rule map_of_map_keyed)

lemma map_fst_map_values: "map fst (map (\<lambda>(v, data). (v, f data)) es) = map fst es"
  by (induction es) auto

lemma neighbors_scale_weights: "neighbors (scale_weights k g) u = neighbors g u"
  by (cases "map_of g u") (auto simp: neighbors_def map_of_scale_weights split: prod.splits)

lemma map_of_map_values:
  "map_of (map (\<lambda>(v, data). (v, f data)) es) v = map_option f (map_of es v)"
  by (induction es) auto

lemma edge_cost_scale_weights: "edge_cost (scale_weights k g) u v = k * edge_cost g u v"
  by (simp add: edge_cost_def edge_data_def map_of_scale_weights map_of_map_values edge_weight_def
      split: option.splits)

lemma edge_data_scale_weights:
  "edge_data (scale_weights k g) u v =
     (case edge_data g u v of
        Inl e \<Rightarrow> Inl e
      | Inr data \<Rightarrow> Inr (data\<lparr>weight := Some (k * edge_weight data)\<rparr>))"
  by (simp add: edge_data_def map_of_scale_weights map_of_map_values split: option.splits)

lemma lt_dist_scale:
  "0 < k \<Longrightarrow> lt_dist (k * a) (scale_dist k d) = lt_dist a d" for k :: "'w::linordered_idom"
  by (cases d) simp_all

lemma gt_dist_scale:
  "0 < k \<Longrightarrow> gt_dist (k * a) (scale_dist k d) = gt_dist a d" for k :: "'w::linordered_idom"
  by (cases d) simp_all

lemma tuple_le_scale: "0 < k \<Longrightarrow> tuple_le (scale_entry k a) (scale_entry k b) = tuple_le a b"
  by (simp add: tuple_le_def scale_entry_def)

lemma least_tuple_scale:
  "0 < k \<Longrightarrow> least_tuple (scale_entry k m) (map (scale_entry k) xs) = scale_entry k (least_tuple m xs)"
  by (induction xs arbitrary: m) (simp_all add: tuple_le_scale)

lemma scale_entry_eq: "0 < k \<Longrightarrow> scale_entry k a = scale_entry k b \<longleftrightarrow> a = b"
  by (cases a; cases b) (simp add: scale_entry_def)

lemma remove1_scale:
  "0 < k \<Longrightarrow> remove1 (scale_entry k x) (map (scale_entry k) xs) = map (scale_entry k) (remove1 x xs)"
  by (induction xs) (simp_all add: scale_entry_eq)

lemma heappop_scale:
  assumes "0 < k" "pq \<noteq> []" "heappop pq = ((d, u), pq')"
  shows "heappop (map (scale_entry k) pq) = ((k * d, u), map (scale_entry k) pq')"
proof -
  from assms(3) have m: "least_tuple (hd pq) (tl pq) = (d, u)" and r: "pq' = remove1 (d, u) pq"
    by (auto simp: heappop_def Let_def)
  from assms(2) have "hd (map (scale_entry k) pq) = scale_entry k (hd pq)"
    "tl (map (scale_entry k) pq) = map (scale_entry k) (tl pq)"
    by (simp_all add: hd_map map_tl)
  then have "least_tuple (hd (map (scale_entry k) pq)) (tl (map (scale_entry k) pq)) = scale_entry k (d, u)"
    using least_tuple_scale[OF assms(1), of "hd pq" "tl pq"] m by simp
  moreover have "remove1 (scale_entry k (d, u)) (map (scale_entry k) pq) = map (scale_entry k) pq'"
    using remove1_scale[OF assms(1)] r by simp
  moreover have "scale_entry k (d, u) = (k * d, u)" by (simp add: scale_entry_def)
  ultimately show ?thesis by (simp add: heappop_def Let_def)
qed

lemma relax_scale:
  assumes k: "0 < k"
  shows "relax (scale_weights k g) u (k * d) V ns (scale_distances k D) P (map (scale_entry k) pq) =
     (case relax g u d V ns D P pq of
        Inl e \<Rightarrow> Inl e
      | Inr (D', P', pq') \<Rightarrow> Inr (scale_distances k D', P', map (scale_entry k) pq'))"
proof (induction ns arbitrary: D P pq)
  case Nil
  show ?case by simp
next
  case (Cons n ns)
  show ?case
  proof (cases "n \<in> V")
    case True
    with Cons.IH show ?thesis by simp
  next
    case nV: False
    show ?thesis
    proof (cases "edge_data g u n")
      case (Inl e)
      with nV show ?thesis by (simp add: edge_data_scale_weights)
    next
      case (Inr data)
      let ?data' = "data\<lparr>weight := Some (k * edge_weight data)\<rparr>"
      have ed: "edge_data (scale_weights k g) u n = Inr ?data'"
        using Inr by (simp add: edge_data_scale_weights)
      have ew: "k * d + edge_weight ?data' = k * (d + edge_weight data)"
        by (simp add: edge_weight_def distrib_left)
      show ?thesis
      proof (cases "D n")
        case None
        then have "scale_distances k D n = None" by (simp add: scale_distances_def)
        with nV Inr ed None show ?thesis by simp
      next
        case dn: (Some dn)
        then have sd: "scale_distances k D n = Some (scale_dist k dn)"
          by (simp add: scale_distances_def)
        let ?x = "d + edge_weight data"
        show ?thesis
        proof (cases "lt_dist ?x dn")
          case True
          have upd: "(scale_distances k D)(n \<mapsto> Num (k * ?x)) = scale_distances k (D(n \<mapsto> Num ?x))"
            by (rule ext) (simp add: scale_distances_def)
          have push: "heappush (map (scale_entry k) pq) (k * ?x, n) = map (scale_entry k) (heappush pq (?x, n))"
            by (simp add: heappush_def scale_entry_def)
          from True have lt': "lt_dist (k * ?x) (scale_dist k dn)"
            by (simp add: lt_dist_scale[OF k])
          have rhs: "relax g u d V (n # ns) D P pq
              = relax g u d V ns (D(n \<mapsto> Num ?x)) (P(n \<mapsto> Some u)) (heappush pq (?x, n))"
            using nV Inr dn True by (simp add: Let_def)
          have "relax (scale_weights k g) u (k * d) V (n # ns) (scale_distances k D) P (map (scale_entry k) pq)
              = relax (scale_weights k g) u (k * d) V ns ((scale_distances k D)(n \<mapsto> Num (k * ?x)))
                  (P(n \<mapsto> Some u)) (heappush (map (scale_entry k) pq) (k * ?x, n))"
            using nV ed sd lt' by (simp add: Let_def ew del: edata.simps)
          also have "\<dots> = relax (scale_weights k g) u (k * d) V ns (scale_distances k (D(n \<mapsto> Num ?x)))
                  (P(n \<mapsto> Some u)) (map (scale_entry k) (heappush pq (?x, n)))"
            by (simp only: upd push)
          finally show ?thesis unfolding rhs by (simp only: Cons.IH)
        next
          case False
          then have nlt': "\<not> lt_dist (k * ?x) (scale_dist k dn)"
            by (simp add: lt_dist_scale[OF k])
          have rhs: "relax g u d V (n # ns) D P pq = relax g u d V ns D P pq"
            using nV Inr dn False by (simp add: Let_def)
          have "relax (scale_weights k g) u (k * d) V (n # ns) (scale_distances k D) P (map (scale_entry k) pq)
              = relax (scale_weights k g) u (k * d) V ns (scale_distances k D) P (map (scale_entry k) pq)"
            using nV ed sd nlt' by (simp add: Let_def ew del: edata.simps)
          then show ?thesis unfolding rhs by (simp only: Cons.IH)
        qed
      qed
    qed
  qed
qed

definition scale_result ::
  "'w::linordered_idom \<Rightarrow> error + (('v \<rightharpoonup> 'w dist) \<times> ('v \<rightharpoonup> 'v option)) \<Rightarrow>
     error + (('v \<rightharpoonup> 'w dist) \<times> ('v \<rightharpoonup> 'v option))" where
  "scale_result k r =
     (case r of Inl e \<Rightarrow> Inl e | Inr (D, P) \<Rightarrow> Inr (scale_distances k D, P))"

lemma dijkstra_loop_scale:
  assumes k: "0 < k"
  shows "dijkstra_loop (scale_weights k g) (scale_distances k D) P (map (scale_entry k) pq) V
     = scale_result k (dijkstra_loop g D P pq V)"
proof (induction D P pq V rule: dijkstra_loop_induct[where g = g])
  case (step D P pq V)
  show ?case
  proof (cases "pq = []")
    case True
    then show ?thesis by (simp add: dijkstra_loop_Nil scale_result_def)
  next
    case ne: False
    obtain d u pq' where pop: "heappop pq = ((d, u), pq')"
      by (metis surj_pair)
    note pop' = heappop_scale[OF k ne pop]
    from ne have ne': "map (scale_entry k) pq \<noteq> []" by simp
    show ?thesis
    proof (cases "u \<in> V")
      case True
      from step(1)[OF ne pop True] show ?thesis
        by (simp add: dijkstra_loop_visited[OF ne pop True] dijkstra_loop_visited[OF ne' pop' True])
    next
      case nV: False
      show ?thesis
      proof (cases "D u")
        case None
        then have "scale_distances k D u = None" by (simp add: scale_distances_def)
        from dijkstra_loop_KeyError[where D = "scale_distances k D", OF ne' pop' nV this]
          dijkstra_loop_KeyError[where D = D, OF ne pop nV None]
        show ?thesis by (simp add: scale_result_def)
      next
        case (Some dc)
        then have sd: "scale_distances k D u = Some (scale_dist k dc)"
          by (simp add: scale_distances_def)
        show ?thesis
        proof (cases "gt_dist d dc")
          case True
          then have g': "gt_dist (k * d) (scale_dist k dc)" by (simp add: gt_dist_scale[OF k])
          from step(2)[OF ne pop nV Some True] show ?thesis
            by (simp add: dijkstra_loop_stale[where D = D, OF ne pop nV Some True]
                dijkstra_loop_stale[where D = "scale_distances k D", OF ne' pop' nV sd g'])
        next
          case False
          then have g': "\<not> gt_dist (k * d) (scale_dist k dc)" by (simp add: gt_dist_scale[OF k])
          note l = dijkstra_loop_expand[where D = D, OF ne pop nV Some False]
          note l' = dijkstra_loop_expand[where D = "scale_distances k D", OF ne' pop' nV sd g']
          show ?thesis
          proof (cases "neighbors g u")
            case (Inl e)
            then show ?thesis
              by (simp add: l l' neighbors_scale_weights scale_result_def)
          next
            case (Inr ns)
            show ?thesis
            proof (cases "relax g u d (insert u V) ns D P pq'")
              case rl: (Inl e)
              then show ?thesis
                by (simp add: l l' neighbors_scale_weights Inr relax_scale[OF k] scale_result_def)
            next
              case rr: (Inr res)
              obtain D' P' pq'' where res: "res = (D', P', pq'')" by (cases res)
              from step(3)[OF ne pop nV Some False Inr rr[unfolded res]] show ?thesis
                by (simp add: l l' neighbors_scale_weights Inr relax_scale[OF k] rr res)
            qed
          qed
        qed
      qed
    qed
  qed
qed

lemma map_of_const: "map_of (map (\<lambda>node. (node, c)) ns) n = (if n \<in> set ns then Some c else None)"
  by (induction ns) auto

text \<open>
  C7, for numbers with exact arithmetic. When the weights and the positive constant \<open>k\<close>
  are numbers of an ordered ring, as Python's integers are, multiplying every edge weight
  by \<open>k\<close> multiplies every entry of the distance map by \<open>k\<close> (infinity stays infinity); the
  predecessor map, and a raised error, are the same.
\<close>

theorem dijkstra_scale_weights:
  fixes k :: "'w::linordered_idom"
  assumes "0 < k"
  shows "dijkstra (scale_weights k g) s =
     (case dijkstra g s of
        Inl e \<Rightarrow> Inl e
      | Inr (distances, previous) \<Rightarrow>
          Inr (\<lambda>node. map_option (scale_dist k) (distances node), previous))"
proof -
  have init: "(map_of (map (\<lambda>node. (node, Infinity)) (nodes g)))(s \<mapsto> Num 0)
      = scale_distances k ((map_of (map (\<lambda>node. (node, Infinity)) (nodes g)))(s \<mapsto> Num 0))"
    by (rule ext) (simp add: scale_distances_def map_of_const)
  have q: "[(0, s)] = map (scale_entry k) [(0, s)]" by (simp add: scale_entry_def)
  have "dijkstra (scale_weights k g) s = scale_result k (dijkstra g s)"
    unfolding dijkstra_def nodes_scale_weights
    by (subst init, subst q) (rule dijkstra_loop_scale[OF assms])
  then show ?thesis unfolding scale_result_def scale_distances_def .
qed

theorem dijkstra_scale_weights_witness:
  "(0 :: int) < 3 \<and>
   dijkstra (scale_weights 3 triangle_graph) ''A'' =
     (case dijkstra triangle_graph ''A'' of
        Inl e \<Rightarrow> Inl e
      | Inr (distances, previous) \<Rightarrow>
          Inr (\<lambda>node. map_option (scale_dist 3) (distances node), previous))"
  using dijkstra_scale_weights[of 3 triangle_graph "''A''"] by simp

lemma dijkstra_scale_weights_example:
  "(case dijkstra triangle_graph ''A'' of
      Inr (distances, previous) \<Rightarrow> map distances [''A'', ''B'', ''C'']
    | Inl e \<Rightarrow> []) = [Some (Num 0), Some (Num 1), Some (Num 2)] \<and>
   (case dijkstra (scale_weights 3 triangle_graph) ''A'' of
      Inr (distances, previous) \<Rightarrow> map distances [''A'', ''B'', ''C'']
    | Inl e \<Rightarrow> []) = [Some (Num 0), Some (Num 3), Some (Num 6)]"
  by code_simp

text \<open>
  C7 as stated, for every weighted graph and every positive constant, fails on float
  weights, whose sums and products are rounded. On the chain \<^verbatim>\<open>A\<close> - \<^verbatim>\<open>B\<close> - \<^verbatim>\<open>C\<close> with the
  weights \<^verbatim>\<open>2.6\<close> and \<^verbatim>\<open>2.7\<close> the run from \<^verbatim>\<open>A\<close> gives \<^verbatim>\<open>C\<close> the distance
  \<^verbatim>\<open>2.6 + 2.7 = 5.300000000000001\<close>, and 10 times that is \<^verbatim>\<open>53.00000000000001\<close>; with the
  weights multiplied by 10, which are \<^verbatim>\<open>26.0\<close> and \<^verbatim>\<open>27.0\<close>, the run gives \<^verbatim>\<open>C\<close> the distance
  \<^verbatim>\<open>53.0\<close>.
\<close>

theorem dijkstra_scale_weights_float_counterexample:
  "0 < py_float 10 \<and>
   (case dijkstra float_chain ''A'' of
      Inr (distances, previous) \<Rightarrow> distances ''C''
    | Inl e \<Rightarrow> None) = Some (Num (PyFloat (1491817376566477 / 281474976710656))) \<and>
   scale_dist (py_float 10) (Num (PyFloat (1491817376566477 / 281474976710656)))
     = Num (PyFloat (7459086882832385 / 140737488355328)) \<and>
   (case dijkstra (scale_weights (py_float 10) float_chain) ''A'' of
      Inr (distances, previous) \<Rightarrow> distances ''C''
    | Inl e \<Rightarrow> None) = Some (Num (PyFloat 53)) \<and>
   dijkstra (scale_weights (py_float 10) float_chain) ''A'' \<noteq>
     (case dijkstra float_chain ''A'' of
        Inl e \<Rightarrow> Inl e
      | Inr (distances, previous) \<Rightarrow>
          Inr (\<lambda>node. map_option (scale_dist (py_float 10)) (distances node), previous))"
proof -
  have k: "0 < py_float 10" by code_simp
  have a: "(case dijkstra float_chain ''A'' of
      Inr (distances, previous) \<Rightarrow> distances ''C''
    | Inl e \<Rightarrow> None) = Some (Num (PyFloat (1491817376566477 / 281474976710656)))"
    by code_simp
  have b: "scale_dist (py_float 10) (Num (PyFloat (1491817376566477 / 281474976710656)))
     = Num (PyFloat (7459086882832385 / 140737488355328))"
    by code_simp
  have c: "(case dijkstra (scale_weights (py_float 10) float_chain) ''A'' of
      Inr (distances, previous) \<Rightarrow> distances ''C''
    | Inl e \<Rightarrow> None) = Some (Num (PyFloat 53))"
    by code_simp
  have ne: "PyFloat 53 \<noteq> PyFloat (7459086882832385 / 140737488355328)" by simp
  have "dijkstra (scale_weights (py_float 10) float_chain) ''A'' \<noteq>
     (case dijkstra float_chain ''A'' of
        Inl e \<Rightarrow> Inl e
      | Inr (distances, previous) \<Rightarrow>
          Inr (\<lambda>node. map_option (scale_dist (py_float 10)) (distances node), previous))"
  proof
    assume eq: "dijkstra (scale_weights (py_float 10) float_chain) ''A'' =
     (case dijkstra float_chain ''A'' of
        Inl e \<Rightarrow> Inl e
      | Inr (distances, previous) \<Rightarrow>
          Inr (\<lambda>node. map_option (scale_dist (py_float 10)) (distances node), previous))"
    from a obtain D P where r: "dijkstra float_chain ''A'' = Inr (D, P)"
      "D ''C'' = Some (Num (PyFloat (1491817376566477 / 281474976710656)))"
      by (auto split: sum.splits)
    from c[unfolded eq r] r(2) b ne show False by simp
  qed
  with k a b c show ?thesis by blast
qed

section \<open>The inner loop of Dijkstra's algorithm\<close>

definition relax_post ::
  "('v, 'w::linordered_idom) graph \<Rightarrow> 'v \<Rightarrow> 'w \<Rightarrow> 'v set \<Rightarrow> 'v list \<Rightarrow>
   ('v \<rightharpoonup> 'w dist) \<Rightarrow> ('v \<rightharpoonup> 'v option) \<Rightarrow> ('w \<times> 'v) list \<Rightarrow>
   ('v \<rightharpoonup> 'w dist) \<Rightarrow> ('v \<rightharpoonup> 'v option) \<Rightarrow> ('w \<times> 'v) list \<Rightarrow> bool" where
  "relax_post g u d V ns D P pq D' P' pq' =
     (dom D' = dom D \<and> dom P' = dom P \<and>
      (\<forall>x. (D' x = D x \<and> P' x = P x) \<or>
           (x \<notin> V \<and> x \<in> set ns \<and> P' x = Some (Some u) \<and> D' x = Some (Num (d + edge_cost g u x)))) \<and>
      (\<forall>x e. D x = Some (Num e) \<longrightarrow> (\<exists>e'. D' x = Some (Num e') \<and> e' \<le> e)) \<and>
      set pq \<subseteq> set pq' \<and>
      (\<forall>e x. (e, x) \<in> set pq' \<longrightarrow>
           (e, x) \<in> set pq \<or> (x \<in> set ns \<and> (\<exists>e'. D' x = Some (Num e') \<and> e' \<le> e))) \<and>
      (\<forall>x e. D' x = Some (Num e) \<longrightarrow> D x = Some (Num e) \<or> (e, x) \<in> set pq') \<and>
      (\<forall>x \<in> set ns. x \<notin> V \<longrightarrow> (\<exists>e. D' x = Some (Num e) \<and> e \<le> d + edge_cost g u x)))"

lemma relax_postD:
  assumes "relax_post g u d V ns D P pq D' P' pq'"
  shows "dom D' = dom D" "dom P' = dom P"
    "\<And>x. (D' x = D x \<and> P' x = P x) \<or>
           (x \<notin> V \<and> x \<in> set ns \<and> P' x = Some (Some u) \<and> D' x = Some (Num (d + edge_cost g u x)))"
    "\<And>x e. D x = Some (Num e) \<Longrightarrow> \<exists>e'. D' x = Some (Num e') \<and> e' \<le> e"
    "set pq \<subseteq> set pq'"
    "\<And>e x. (e, x) \<in> set pq' \<Longrightarrow>
           (e, x) \<in> set pq \<or> (x \<in> set ns \<and> (\<exists>e'. D' x = Some (Num e') \<and> e' \<le> e))"
    "\<And>x e. D' x = Some (Num e) \<Longrightarrow> D x = Some (Num e) \<or> (e, x) \<in> set pq'"
    "\<And>x. x \<in> set ns \<Longrightarrow> x \<notin> V \<Longrightarrow> \<exists>e. D' x = Some (Num e) \<and> e \<le> d + edge_cost g u x"
  using assms unfolding relax_post_def by blast+

lemma relax_postI:
  assumes "dom D' = dom D" "dom P' = dom P"
    "\<And>x. (D' x = D x \<and> P' x = P x) \<or>
           (x \<notin> V \<and> x \<in> set ns \<and> P' x = Some (Some u) \<and> D' x = Some (Num (d + edge_cost g u x)))"
    "\<And>x e. D x = Some (Num e) \<Longrightarrow> \<exists>e'. D' x = Some (Num e') \<and> e' \<le> e"
    "set pq \<subseteq> set pq'"
    "\<And>e x. (e, x) \<in> set pq' \<Longrightarrow>
           (e, x) \<in> set pq \<or> (x \<in> set ns \<and> (\<exists>e'. D' x = Some (Num e') \<and> e' \<le> e))"
    "\<And>x e. D' x = Some (Num e) \<Longrightarrow> D x = Some (Num e) \<or> (e, x) \<in> set pq'"
    "\<And>x. x \<in> set ns \<Longrightarrow> x \<notin> V \<Longrightarrow> \<exists>e. D' x = Some (Num e) \<and> e \<le> d + edge_cost g u x"
  shows "relax_post g u d V ns D P pq D' P' pq'"
  unfolding relax_post_def
  apply (intro conjI)
         apply (rule assms(1))
        apply (rule assms(2))
       apply (intro allI, rule assms(3))
      apply (intro allI impI, rule assms(4), assumption)
     apply (rule assms(5))
    apply (intro allI impI, rule assms(6), assumption)
   apply (intro allI impI, rule assms(7), assumption)
  apply (intro ballI impI, rule assms(8), assumption, assumption)
  done

lemma relax_post_Nil: "relax_post g u d V [] D P pq D P pq"
  by (rule relax_postI) simp_all

lemma relax_post_skip:
  assumes r: "relax_post g u d V ns D P pq D' P' pq'" and n: "n \<in> V"
  shows "relax_post g u d V (n # ns) D P pq D' P' pq'"
proof (rule relax_postI)
  show "dom D' = dom D" "dom P' = dom P" "set pq \<subseteq> set pq'" by (rule relax_postD[OF r])+
  show "(D' x = D x \<and> P' x = P x) \<or>
           (x \<notin> V \<and> x \<in> set (n # ns) \<and> P' x = Some (Some u) \<and> D' x = Some (Num (d + edge_cost g u x)))" for x
    using relax_postD(3)[OF r, of x] by auto
  show "\<And>x e. D x = Some (Num e) \<Longrightarrow> \<exists>e'. D' x = Some (Num e') \<and> e' \<le> e"
    by (rule relax_postD(4)[OF r])
  show "(e, x) \<in> set pq \<or> (x \<in> set (n # ns) \<and> (\<exists>e'. D' x = Some (Num e') \<and> e' \<le> e))"
    if "(e, x) \<in> set pq'" for e x
    using relax_postD(6)[OF r that] by auto
  show "\<And>x e. D' x = Some (Num e) \<Longrightarrow> D x = Some (Num e) \<or> (e, x) \<in> set pq'"
    by (rule relax_postD(7)[OF r])
  show "\<exists>e. D' x = Some (Num e) \<and> e \<le> d + edge_cost g u x" if "x \<in> set (n # ns)" "x \<notin> V" for x
  proof -
    from that n have "x \<in> set ns" by auto
    from relax_postD(8)[OF r this that(2)] show ?thesis .
  qed
qed

lemma not_lt_dist: "\<not> lt_dist x dn \<Longrightarrow> \<exists>e. dn = Num e \<and> e \<le> x"
  by (cases dn) auto

lemma relax_post_keep:
  assumes r: "relax_post g u d V ns D P pq D' P' pq'" and dn: "D n = Some dn"
    and nlt: "\<not> lt_dist (d + edge_cost g u n) dn"
  shows "relax_post g u d V (n # ns) D P pq D' P' pq'"
proof (rule relax_postI)
  show "dom D' = dom D" "dom P' = dom P" "set pq \<subseteq> set pq'" by (rule relax_postD[OF r])+
  show "(D' x = D x \<and> P' x = P x) \<or>
           (x \<notin> V \<and> x \<in> set (n # ns) \<and> P' x = Some (Some u) \<and> D' x = Some (Num (d + edge_cost g u x)))" for x
    using relax_postD(3)[OF r, of x] by auto
  show "\<And>x e. D x = Some (Num e) \<Longrightarrow> \<exists>e'. D' x = Some (Num e') \<and> e' \<le> e"
    by (rule relax_postD(4)[OF r])
  show "(e, x) \<in> set pq \<or> (x \<in> set (n # ns) \<and> (\<exists>e'. D' x = Some (Num e') \<and> e' \<le> e))"
    if "(e, x) \<in> set pq'" for e x
    using relax_postD(6)[OF r that] by auto
  show "\<And>x e. D' x = Some (Num e) \<Longrightarrow> D x = Some (Num e) \<or> (e, x) \<in> set pq'"
    by (rule relax_postD(7)[OF r])
  show "\<exists>e. D' x = Some (Num e) \<and> e \<le> d + edge_cost g u x" if "x \<in> set (n # ns)" "x \<notin> V" for x
  proof (cases "x = n")
    case True
    from not_lt_dist[OF nlt] obtain e0 where e0: "dn = Num e0" "e0 \<le> d + edge_cost g u n" by blast
    with dn have "D n = Some (Num e0)" by simp
    from relax_postD(4)[OF r this] obtain e' where "D' n = Some (Num e')" "e' \<le> e0" by blast
    with e0(2) True show ?thesis by auto
  next
    case False
    with that have "x \<in> set ns" by auto
    from relax_postD(8)[OF r this that(2)] show ?thesis .
  qed
qed

lemma relax_post_update:
  assumes r: "relax_post g u d V ns (D(n \<mapsto> Num (d + edge_cost g u n))) (P(n \<mapsto> Some u))
                ((d + edge_cost g u n, n) # pq) D' P' pq'"
    and nV: "n \<notin> V" and dn: "D n = Some dn" and pn: "P n \<noteq> None"
    and lt: "lt_dist (d + edge_cost g u n) dn"
  shows "relax_post g u d V (n # ns) D P pq D' P' pq'"
proof (rule relax_postI)
  let ?c = "d + edge_cost g u n"
  let ?D1 = "D(n \<mapsto> Num ?c)" and ?P1 = "P(n \<mapsto> Some u)"
  from dn have "dom ?D1 = dom D" by auto
  with relax_postD(1)[OF r] show "dom D' = dom D" by simp
  from pn have "dom ?P1 = dom P" by auto
  with relax_postD(2)[OF r] show "dom P' = dom P" by simp
  from relax_postD(5)[OF r] show "set pq \<subseteq> set pq'" by auto
  have n1: "\<exists>e'. D' n = Some (Num e') \<and> e' \<le> ?c"
    using relax_postD(4)[OF r, of n ?c] by simp
  show "(D' x = D x \<and> P' x = P x) \<or>
           (x \<notin> V \<and> x \<in> set (n # ns) \<and> P' x = Some (Some u) \<and> D' x = Some (Num (d + edge_cost g u x)))" for x
  proof (cases "x = n")
    case True
    from relax_postD(3)[OF r, of n] nV True show ?thesis by auto
  next
    case False
    with relax_postD(3)[OF r, of x] show ?thesis by auto
  qed
  show "\<exists>e'. D' x = Some (Num e') \<and> e' \<le> e" if "D x = Some (Num e)" for x e
  proof (cases "x = n")
    case True
    with that dn lt have "?c < e" by simp
    with n1 True show ?thesis by fastforce
  next
    case False
    with that have "?D1 x = Some (Num e)" by simp
    from relax_postD(4)[OF r this] show ?thesis .
  qed
  show "(e, x) \<in> set pq \<or> (x \<in> set (n # ns) \<and> (\<exists>e'. D' x = Some (Num e') \<and> e' \<le> e))"
    if "(e, x) \<in> set pq'" for e x
  proof -
    from relax_postD(6)[OF r that]
    consider "(e, x) = (?c, n)" | "(e, x) \<in> set pq"
      | "x \<in> set ns \<and> (\<exists>e'. D' x = Some (Num e') \<and> e' \<le> e)" by auto
    then show ?thesis
    proof cases
      case 1
      with n1 show ?thesis by auto
    qed auto
  qed
  show "D x = Some (Num e) \<or> (e, x) \<in> set pq'" if "D' x = Some (Num e)" for x e
  proof -
    from relax_postD(7)[OF r that] have "?D1 x = Some (Num e) \<or> (e, x) \<in> set pq'" .
    moreover have "(?c, n) \<in> set pq'" using relax_postD(5)[OF r] by auto
    ultimately show ?thesis by (cases "x = n") auto
  qed
  show "\<exists>e. D' x = Some (Num e) \<and> e \<le> d + edge_cost g u x" if "x \<in> set (n # ns)" "x \<notin> V" for x
  proof (cases "x = n")
    case True
    with n1 show ?thesis by simp
  next
    case False
    with that have "x \<in> set ns" by auto
    from relax_postD(8)[OF r this that(2)] show ?thesis .
  qed
qed

lemma edge_cost_eq: "edge_data g u n = Inr data \<Longrightarrow> edge_cost g u n = edge_weight data"
  by (simp add: edge_cost_def)

lemma relax_correct:
  assumes "\<forall>n \<in> set ns. n \<notin> V \<longrightarrow> (\<exists>data. edge_data g u n = Inr data)"
    and "set ns \<subseteq> dom D" "dom P = dom D"
  shows "\<exists>D' P' pq'. relax g u d V ns D P pq = Inr (D', P', pq') \<and>
           relax_post g u d V ns D P pq D' P' pq'"
  using assms
proof (induction ns arbitrary: D P pq)
  case Nil
  show ?case using relax_post_Nil by simp
next
  case (Cons n ns)
  have pre: "\<forall>m \<in> set ns. m \<notin> V \<longrightarrow> (\<exists>data. edge_data g u m = Inr data)"
    using Cons.prems(1) by simp
  show ?case
  proof (cases "n \<in> V")
    case True
    from Cons.IH[OF pre, of D P pq] Cons.prems(2,3)
    obtain D' P' pq' where r: "relax g u d V ns D P pq = Inr (D', P', pq')"
      "relax_post g u d V ns D P pq D' P' pq'" by auto
    from relax_post_skip[OF r(2) True] r(1) True show ?thesis by simp
  next
    case nV: False
    with Cons.prems(1) obtain data where data: "edge_data g u n = Inr data" by auto
    from Cons.prems(2) obtain dn where dn: "D n = Some dn" by auto
    with Cons.prems(3) have pn: "P n \<noteq> None" by blast
    note c = edge_cost_eq[OF data]
    show ?thesis
    proof (cases "lt_dist (d + edge_cost g u n) dn")
      case True
      let ?D1 = "D(n \<mapsto> Num (d + edge_cost g u n))" and ?P1 = "P(n \<mapsto> Some u)"
      have "set ns \<subseteq> dom ?D1" "dom ?P1 = dom ?D1" using Cons.prems(2,3) by auto
      from Cons.IH[OF pre this, of "(d + edge_cost g u n, n) # pq"]
      obtain D' P' pq' where r: "relax g u d V ns ?D1 ?P1 ((d + edge_cost g u n, n) # pq) = Inr (D', P', pq')"
        "relax_post g u d V ns ?D1 ?P1 ((d + edge_cost g u n, n) # pq) D' P' pq'" by blast
      have "relax g u d V (n # ns) D P pq = relax g u d V ns ?D1 ?P1 ((d + edge_cost g u n, n) # pq)"
        using nV data dn True by (simp add: Let_def c heappush_def)
      with relax_post_update[OF r(2) nV dn pn True] r(1) show ?thesis by simp
    next
      case False
      from Cons.IH[OF pre, of D P pq] Cons.prems(2,3)
      obtain D' P' pq' where r: "relax g u d V ns D P pq = Inr (D', P', pq')"
        "relax_post g u d V ns D P pq D' P' pq'" by auto
      have "relax g u d V (n # ns) D P pq = relax g u d V ns D P pq"
        using nV data dn False by (simp add: Let_def c)
      with relax_post_keep[OF r(2) dn False] r(1) show ?thesis by simp
    qed
  qed
qed

section \<open>Invariants of Dijkstra's algorithm\<close>

subsection \<open>The least tuple\<close>

lemma tuple_le_refl: "tuple_le a a"
  by (simp add: tuple_le_def)

lemma tuple_le_total: "tuple_le a b \<or> tuple_le b a"
  by (auto simp: tuple_le_def)

lemma tuple_le_trans: "tuple_le a b \<Longrightarrow> tuple_le b c \<Longrightarrow> tuple_le a c"
  by (auto simp: tuple_le_def)

lemma least_tuple_le: "y \<in> set (m # xs) \<Longrightarrow> tuple_le (least_tuple m xs) y"
proof (induction xs arbitrary: m y)
  case Nil
  then show ?case by (simp add: tuple_le_refl)
next
  case (Cons x xs)
  let ?m = "if tuple_le m x then m else x"
  have mm: "tuple_le ?m m" and mx: "tuple_le ?m x"
    using tuple_le_total[of m x] by (auto simp: tuple_le_refl)
  have l: "tuple_le (least_tuple ?m xs) ?m" by (rule Cons.IH) simp
  from Cons.prems consider "y = m" | "y = x" | "y \<in> set xs" by auto
  then show ?case
  proof cases
    case 1
    with tuple_le_trans[OF l mm] show ?thesis by simp
  next
    case 2
    with tuple_le_trans[OF l mx] show ?thesis by simp
  next
    case 3
    then have "tuple_le (least_tuple ?m xs) y" by (intro Cons.IH) simp
    then show ?thesis by simp
  qed
qed

lemma heappop_props:
  assumes "pq \<noteq> []" "heappop pq = ((d, u), pq')"
  shows "(d, u) \<in> set pq" "set pq' \<subseteq> set pq"
    "\<And>y. y \<in> set pq \<Longrightarrow> y \<noteq> (d, u) \<Longrightarrow> y \<in> set pq'"
    "\<And>e x. (e, x) \<in> set pq \<Longrightarrow> d \<le> e"
proof -
  from assms(2) have m: "least_tuple (hd pq) (tl pq) = (d, u)" and r: "pq' = remove1 (d, u) pq"
    by (auto simp: heappop_def Let_def)
  from assms(1) have c: "hd pq # tl pq = pq" by simp
  from least_tuple_in[of "hd pq" "tl pq"] m c show "(d, u) \<in> set pq" by simp
  from r show "set pq' \<subseteq> set pq" by (simp add: set_remove1_subset)
  show "y \<in> set pq'" if "y \<in> set pq" "y \<noteq> (d, u)" for y
    using that r by simp
  show "d \<le> e" if "(e, x) \<in> set pq" for e x
  proof -
    from that c have "(e, x) \<in> set (hd pq # tl pq)" by simp
    from least_tuple_le[OF this] m have "tuple_le (d, u) (e, x)" by simp
    then show ?thesis by (auto simp: tuple_le_def)
  qed
qed

subsection \<open>Predecessor chains\<close>

lemma pred_chain_nonempty: "pred_chain P t xs \<Longrightarrow> xs \<noteq> [] \<and> hd xs = t"
  by (induction rule: pred_chain.induct) simp_all

lemma pred_chain_cong:
  "pred_chain P t xs \<Longrightarrow> \<forall>x \<in> set xs. P' x = P x \<Longrightarrow> pred_chain P' t xs"
proof (induction rule: pred_chain.induct)
  case (root previous t)
  then show ?case by (simp add: pred_chain.root)
next
  case (link previous t u xs)
  then show ?case by (simp add: pred_chain.link)
qed

lemma walk_back_chain:
  "pred_chain P t xs \<Longrightarrow> walk_back P (Some t) acc = Some (Inr (acc @ xs))"
proof (induction arbitrary: acc rule: pred_chain.induct)
  case (root previous t)
  then show ?case
    by (subst walk_back.simps) (simp add: walk_back.simps[of previous None])
next
  case (link previous t u xs)
  have "walk_back previous (Some t) acc = walk_back previous (Some u) (acc @ [t])"
    using link.hyps(1) by (subst walk_back.simps) simp
  with link.IH[of "acc @ [t]"] show ?case by simp
qed

lemma path_weight_snoc:
  "p \<noteq> [] \<Longrightarrow> path_weight g (p @ [v]) = path_weight g p + edge_cost g (last p) v"
proof (induction g p rule: path_weight.induct)
  case (1 g u w rest)
  then show ?case by (simp add: add.assoc)
qed simp_all

definition reached_by ::
  "('v, 'w::linordered_idom) graph \<Rightarrow> 'v \<Rightarrow> ('v \<rightharpoonup> 'w dist) \<Rightarrow> ('v \<rightharpoonup> 'v option) \<Rightarrow> 'v set \<Rightarrow> 'v \<Rightarrow> bool" where
  "reached_by g s D P V x =
     (\<exists>xs. pred_chain P x xs \<and> last xs = s \<and> set xs \<subseteq> V \<and> path_from_to g s x (rev xs) \<and>
           D x = Some (Num (path_weight g (rev xs))))"

definition dinv ::
  "('v, 'w::linordered_idom) graph \<Rightarrow> 'v \<Rightarrow> ('v \<rightharpoonup> 'w dist) \<Rightarrow> ('v \<rightharpoonup> 'v option) \<Rightarrow>
     ('w \<times> 'v) list \<Rightarrow> 'v set \<Rightarrow> bool" where
  "dinv g s D P pq V =
     (dom D = set (nodes g) \<and> dom P = set (nodes g) \<and> V \<subseteq> set (nodes g) \<and>
      D s = Some (Num 0) \<and> P s = Some None \<and>
      (s \<in> V \<or> (\<forall>e x. (e, x) \<in> set pq \<longrightarrow> x = s)) \<and>
      (\<forall>e x. (e, x) \<in> set pq \<longrightarrow> has_node g x \<and> (\<exists>e'. D x = Some (Num e') \<and> e' \<le> e)) \<and>
      (\<forall>x e. x \<notin> V \<longrightarrow> D x = Some (Num e) \<longrightarrow> (e, x) \<in> set pq) \<and>
      (\<forall>x \<in> V. reached_by g s D P V x) \<and>
      (\<forall>x e. x \<notin> V \<longrightarrow> D x = Some (Num e) \<longrightarrow>
          x = s \<or> (\<exists>y dy. P x = Some (Some y) \<and> y \<in> V \<and> D y = Some (Num dy) \<and> edge g y x \<and>
                      e = dy + edge_cost g y x)) \<and>
      (\<forall>x. D x = Some Infinity \<longrightarrow> P x = Some None))"

lemma dinv_D1: "dinv g s D P pq V \<Longrightarrow> dom D = set (nodes g)"
  unfolding dinv_def by (elim conjE) blast

lemma dinv_D2: "dinv g s D P pq V \<Longrightarrow> dom P = set (nodes g)"
  unfolding dinv_def by (elim conjE) blast

lemma dinv_D3: "dinv g s D P pq V \<Longrightarrow> V \<subseteq> set (nodes g)"
  unfolding dinv_def by (elim conjE) blast

lemma dinv_D4: "dinv g s D P pq V \<Longrightarrow> D s = Some (Num 0)"
  unfolding dinv_def by (elim conjE) blast

lemma dinv_D5: "dinv g s D P pq V \<Longrightarrow> P s = Some None"
  unfolding dinv_def by (elim conjE) blast

lemma dinv_D6: "dinv g s D P pq V \<Longrightarrow> s \<in> V \<or> (\<forall>e x. (e, x) \<in> set pq \<longrightarrow> x = s)"
  unfolding dinv_def by (elim conjE) blast

lemma dinv_D7: "dinv g s D P pq V \<Longrightarrow> (e, x) \<in> set pq \<Longrightarrow> has_node g x \<and> (\<exists>e'. D x = Some (Num e') \<and> e' \<le> e)"
  unfolding dinv_def by (elim conjE) blast

lemma dinv_D8: "dinv g s D P pq V \<Longrightarrow> x \<notin> V \<Longrightarrow> D x = Some (Num e) \<Longrightarrow> (e, x) \<in> set pq"
  unfolding dinv_def by (elim conjE) blast

lemma dinv_D9: "dinv g s D P pq V \<Longrightarrow> x \<in> V \<Longrightarrow> reached_by g s D P V x"
  unfolding dinv_def by (elim conjE) blast

lemma dinv_D10: "dinv g s D P pq V \<Longrightarrow> x \<notin> V \<Longrightarrow> D x = Some (Num e) \<Longrightarrow> x = s \<or> (\<exists>y dy. P x = Some (Some y) \<and> y \<in> V \<and> D y = Some (Num dy) \<and> edge g y x \<and> e = dy + edge_cost g y x)"
  unfolding dinv_def by (elim conjE) blast

lemma dinv_D11: "dinv g s D P pq V \<Longrightarrow> D x = Some Infinity \<Longrightarrow> P x = Some None"
  unfolding dinv_def by (elim conjE) blast

lemmas dinvD = dinv_D1 dinv_D2 dinv_D3 dinv_D4 dinv_D5 dinv_D6 dinv_D7 dinv_D8 dinv_D9 dinv_D10 dinv_D11

lemma dinvI:
  assumes "dom D = set (nodes g)" "dom P = set (nodes g)" "V \<subseteq> set (nodes g)"
    "D s = Some (Num 0)" "P s = Some None"
    "s \<in> V \<or> (\<forall>e x. (e, x) \<in> set pq \<longrightarrow> x = s)"
    "\<And>e x. (e, x) \<in> set pq \<Longrightarrow> has_node g x \<and> (\<exists>e'. D x = Some (Num e') \<and> e' \<le> e)"
    "\<And>x e. x \<notin> V \<Longrightarrow> D x = Some (Num e) \<Longrightarrow> (e, x) \<in> set pq"
    "\<And>x. x \<in> V \<Longrightarrow> reached_by g s D P V x"
    "\<And>x e. x \<notin> V \<Longrightarrow> D x = Some (Num e) \<Longrightarrow>
          x = s \<or> (\<exists>y dy. P x = Some (Some y) \<and> y \<in> V \<and> D y = Some (Num dy) \<and> edge g y x \<and>
                      e = dy + edge_cost g y x)"
    "\<And>x. D x = Some Infinity \<Longrightarrow> P x = Some None"
  shows "dinv g s D P pq V"
  unfolding dinv_def
  apply (intro conjI)
            apply (rule assms(1))
           apply (rule assms(2))
          apply (rule assms(3))
         apply (rule assms(4))
        apply (rule assms(5))
       apply (rule assms(6))
      apply (intro allI impI, rule assms(7), assumption)
     apply (intro allI impI, rule assms(8), assumption, assumption)
    apply (intro ballI, rule assms(9), assumption)
   apply (intro allI impI, rule assms(10), assumption, assumption)
  apply (intro allI impI, rule assms(11), assumption)
  done

lemma dinv_init:
  fixes g :: "('v::linorder, 'w::linordered_idom) graph"
  assumes "has_node g s"
  shows "dinv g s ((map_of (map (\<lambda>node. (node, Infinity)) (nodes g)))(s \<mapsto> Num 0))
           (map_of (map (\<lambda>node. (node, None)) (nodes g))) [(0, s)] {}"
proof (rule dinvI)
  let ?D = "(map_of (map (\<lambda>node. (node, Infinity)) (nodes g)))(s \<mapsto> Num (0 :: 'w))"
  let ?P = "map_of (map (\<lambda>node. (node, None :: 'v option)) (nodes g))"
  from assms have s: "s \<in> set (nodes g)" by (simp add: has_node_def)
  have D: "?D x = (if x = s then Some (Num 0) else if x \<in> set (nodes g) then Some Infinity else None)" for x
    by (simp add: map_of_const)
  have P: "?P x = (if x \<in> set (nodes g) then Some None else None)" for x
    by (simp add: map_of_const)
  show "dom ?D = set (nodes g)" using s by (auto simp: dom_def map_of_const split: if_splits)
  show "dom ?P = set (nodes g)" by (auto simp: dom_def map_of_const split: if_splits)
  show "{} \<subseteq> set (nodes g)" by simp
  show "?D s = Some (Num 0)" by simp
  show "?P s = Some None" using s by (simp add: map_of_const)
  show "s \<in> {} \<or> (\<forall>e x. (e, x) \<in> set [(0 :: 'w, s)] \<longrightarrow> x = s)" by simp
  show "\<And>e x. (e, x) \<in> set [(0 :: 'w, s)] \<Longrightarrow> has_node g x \<and> (\<exists>e'. ?D x = Some (Num e') \<and> e' \<le> e)"
    using assms by auto
  show "\<And>x e. x \<notin> {} \<Longrightarrow> ?D x = Some (Num e) \<Longrightarrow> (e, x) \<in> set [(0 :: 'w, s)]"
    by (simp add: map_of_const split: if_splits)
  show "\<And>x. x \<in> {} \<Longrightarrow> reached_by g s ?D ?P {} x" by simp
  show "\<And>x e. x \<notin> {} \<Longrightarrow> ?D x = Some (Num e) \<Longrightarrow>
          x = s \<or> (\<exists>y dy. ?P x = Some (Some y) \<and> y \<in> {} \<and> ?D y = Some (Num dy) \<and> edge g y x \<and>
                      e = dy + edge_cost g y x)"
    by (simp add: map_of_const split: if_splits)
  show "\<And>x. ?D x = Some Infinity \<Longrightarrow> ?P x = Some None"
    by (simp add: map_of_const split: if_splits)
qed

lemma dinv_popped_distance:
  assumes inv: "dinv g s D P pq V" and ne: "pq \<noteq> []" and pop: "heappop pq = ((d, u), pq')"
    and nV: "u \<notin> V"
  shows "D u = Some (Num d)"
proof -
  note hp = heappop_props[OF ne pop]
  from dinvD(7)[OF inv hp(1)] obtain e' where e': "D u = Some (Num e')" "e' \<le> d" by blast
  from dinvD(8)[OF inv nV e'(1)] have "(e', u) \<in> set pq" .
  from hp(4)[OF this] e' show ?thesis by simp
qed

lemma dinv_visited:
  assumes inv: "dinv g s D P pq V" and ne: "pq \<noteq> []" and pop: "heappop pq = ((d, u), pq')"
    and uV: "u \<in> V"
  shows "dinv g s D P pq' V"
proof (rule dinvI)
  note hp = heappop_props[OF ne pop]
  show "s \<in> V \<or> (\<forall>e x. (e, x) \<in> set pq' \<longrightarrow> x = s)"
    using dinvD(6)[OF inv] hp(2) by blast
  show "has_node g x \<and> (\<exists>e'. D x = Some (Num e') \<and> e' \<le> e)" if "(e, x) \<in> set pq'" for e x
    using dinvD(7)[OF inv, of e x] hp(2) that by blast
  show "(e, x) \<in> set pq'" if "x \<notin> V" "D x = Some (Num e)" for x e
  proof -
    from dinvD(8)[OF inv that] have "(e, x) \<in> set pq" .
    moreover from that(1) uV have "(e, x) \<noteq> (d, u)" by auto
    ultimately show ?thesis by (rule hp(3))
  qed
qed (rule dinvD[OF inv]; assumption)+

lemma neighbors_edge_data:
  assumes "neighbors g u = Inr ns" "n \<in> set ns"
  shows "\<exists>data. edge_data g u n = Inr data"
proof -
  from assms obtain es where es: "map_of g u = Some es" "n \<in> fst ` set es"
    by (auto simp: neighbors_def split: option.splits)
  from es(2) have "map_of es n \<noteq> None" by (simp add: map_of_eq_None_iff)
  with es(1) show ?thesis by (auto simp: edge_data_def)
qed

lemma reached_by_mono:
  assumes r: "reached_by g s D P V x" and sub: "V \<subseteq> V'"
    and same: "\<And>y. y \<in> V' \<Longrightarrow> D' y = D y \<and> P' y = P y"
  shows "reached_by g s D' P' V' x"
proof -
  from r obtain xs where xs: "pred_chain P x xs" "last xs = s" "set xs \<subseteq> V"
    "path_from_to g s x (rev xs)" "D x = Some (Num (path_weight g (rev xs)))"
    unfolding reached_by_def by blast
  from xs(3) sub have sub': "set xs \<subseteq> V'" by blast
  then have "\<forall>y \<in> set xs. P' y = P y" using same by blast
  from pred_chain_cong[OF xs(1) this] have c: "pred_chain P' x xs" .
  from pred_chain_nonempty[OF xs(1)] have "x \<in> set xs" by (cases xs) auto
  with sub' same have "D' x = D x" by blast
  with xs c sub' show ?thesis unfolding reached_by_def by auto
qed

lemma reached_by_source:
  assumes "has_node g s" "D s = Some (Num 0)" "P s = Some None" "s \<in> V"
  shows "reached_by g s D P V s"
  unfolding reached_by_def
proof (intro exI[of _ "[s]"] conjI)
  show "pred_chain P s [s]" using assms(3) by (rule pred_chain.root)
  show "path_from_to g s s (rev [s])" using assms(1) by (simp add: path_from_to_single)
qed (use assms in simp_all)

lemma reached_by_extend:
  assumes y: "reached_by g s D P V y" and pu: "P u = Some (Some y)" and e: "edge g y u"
    and hu: "has_node g u" and dy: "D y = Some (Num dy)" and du: "D u = Some (Num (dy + edge_cost g y u))"
  shows "reached_by g s D P (insert u V) u"
proof -
  from y obtain ys where ys: "pred_chain P y ys" "last ys = s" "set ys \<subseteq> V"
    "path_from_to g s y (rev ys)" "D y = Some (Num (path_weight g (rev ys)))"
    unfolding reached_by_def by blast
  from pred_chain_nonempty[OF ys(1)] have ne: "ys \<noteq> []" and hd: "hd ys = y" by simp_all
  have c: "pred_chain P u (u # ys)" using pu ys(1) by (rule pred_chain.link)
  have l: "last (u # ys) = s" using ne ys(2) by simp
  have p: "path_from_to g s u (rev (u # ys))"
    using path_from_to_snoc[OF ys(4) e hu] by simp
  have "last (rev ys) = y" using ne hd by (simp add: last_rev)
  then have "path_weight g (rev (u # ys)) = path_weight g (rev ys) + edge_cost g y u"
    using path_weight_snoc[of "rev ys" g u] ne by simp
  with ys(5) dy du have w: "D u = Some (Num (path_weight g (rev (u # ys))))" by simp
  from ys(3) have s: "set (u # ys) \<subseteq> insert u V" by auto
  from c l s p w show ?thesis unfolding reached_by_def by blast
qed

lemma dinv_expand:
  assumes wf: "wf_graph g" and inv: "dinv g s D P pq V" and ne: "pq \<noteq> []"
    and pop: "heappop pq = ((d, u), pq')" and nV: "u \<notin> V"
    and ns: "neighbors g u = Inr ns"
  shows "\<exists>D' P' pq''. relax g u d (insert u V) ns D P pq' = Inr (D', P', pq'') \<and>
           relax_post g u d (insert u V) ns D P pq' D' P' pq'' \<and>
           dinv g s D' P' pq'' (insert u V)"
proof -
  note hp = heappop_props[OF ne pop]
  let ?V = "insert u V"
  have Du: "D u = Some (Num d)" by (rule dinv_popped_distance[OF inv ne pop nV])
  have hu: "has_node g u" using dinvD(7)[OF inv hp(1)] by simp
  have edges: "edge g u n" if "n \<in> set ns" for n
    using neighbors_Inr_edge[OF ns that] .
  have nodes_ns: "has_node g n" if "n \<in> set ns" for n
    using wf_graph_edge_has_node[OF wf edges[OF that]] .
  have pre1: "\<forall>n \<in> set ns. n \<notin> ?V \<longrightarrow> (\<exists>data. edge_data g u n = Inr data)"
    using neighbors_edge_data[OF ns] by blast
  have pre2: "set ns \<subseteq> dom D"
    using nodes_ns dinvD(1)[OF inv] by (auto simp: has_node_def)
  have pre3: "dom P = dom D" using dinvD(1,2)[OF inv] by simp
  from relax_correct[OF pre1 pre2 pre3, of d pq']
  obtain D' P' pq'' where rl: "relax g u d ?V ns D P pq' = Inr (D', P', pq'')"
    and post: "relax_post g u d ?V ns D P pq' D' P' pq''" by blast
  note rp = relax_postD[OF post]
  have same: "D' x = D x \<and> P' x = P x" if "x \<in> ?V" for x
    using rp(3)[of x] that by blast
  have sV: "s \<in> ?V"
    using dinvD(6)[OF inv] hp(1) by blast
  have reach_u: "reached_by g s D P ?V u"
  proof (cases "u = s")
    case True
    with hu have "has_node g s" by simp
    from reached_by_source[where D = D and P = P, OF this dinvD(4)[OF inv] dinvD(5)[OF inv] sV] True
    show ?thesis by simp
  next
    case False
    with dinvD(10)[OF inv nV Du] obtain y dy where y: "P u = Some (Some y)" "y \<in> V"
      "D y = Some (Num dy)" "edge g y u" "d = dy + edge_cost g y u" by blast
    from reached_by_extend[OF dinvD(9)[OF inv y(2)] y(1) y(4) hu y(3)] Du y(5)
    show ?thesis by simp
  qed
  have "dinv g s D' P' pq'' ?V"
  proof (rule dinvI)
    show "dom D' = set (nodes g)" using rp(1) dinvD(1)[OF inv] by simp
    show "dom P' = set (nodes g)" using rp(2) dinvD(2)[OF inv] by simp
    show "?V \<subseteq> set (nodes g)" using dinvD(3)[OF inv] hu by (simp add: has_node_def)
    show "D' s = Some (Num 0)" using same[OF sV] dinvD(4)[OF inv] by simp
    show "P' s = Some None" using same[OF sV] dinvD(5)[OF inv] by simp
    show "s \<in> ?V \<or> (\<forall>e x. (e, x) \<in> set pq'' \<longrightarrow> x = s)" using sV by blast
    show "has_node g x \<and> (\<exists>e'. D' x = Some (Num e') \<and> e' \<le> e)" if m: "(e, x) \<in> set pq''" for e x
    proof -
      from rp(6)[OF m] show ?thesis
      proof
        assume "(e, x) \<in> set pq'"
        with hp(2) have "(e, x) \<in> set pq" by blast
        from dinvD(7)[OF inv this] obtain e0 where e0: "has_node g x" "D x = Some (Num e0)" "e0 \<le> e"
          by blast
        from rp(4)[OF e0(2)] obtain e1 where "D' x = Some (Num e1)" "e1 \<le> e0" by blast
        with e0 show ?thesis by auto
      next
        assume "x \<in> set ns \<and> (\<exists>e'. D' x = Some (Num e') \<and> e' \<le> e)"
        with nodes_ns show ?thesis by blast
      qed
    qed
    show "(e, x) \<in> set pq''" if x: "x \<notin> ?V" "D' x = Some (Num e)" for x e
    proof -
      from rp(7)[OF x(2)] show ?thesis
      proof
        assume a: "D x = Some (Num e)"
        from x(1) have "x \<notin> V" "x \<noteq> u" by auto
        from dinvD(8)[OF inv this(1) a] have "(e, x) \<in> set pq" .
        moreover from \<open>x \<noteq> u\<close> have "(e, x) \<noteq> (d, u)" by simp
        ultimately have "(e, x) \<in> set pq'" by (rule hp(3))
        with rp(5) show ?thesis by blast
      qed
    qed
    show "reached_by g s D' P' ?V x" if "x \<in> ?V" for x
    proof (cases "x = u")
      case True
      with reached_by_mono[OF reach_u subset_refl same] show ?thesis by blast
    next
      case False
      with that have "x \<in> V" by simp
      from reached_by_mono[OF dinvD(9)[OF inv this] subset_insertI same] show ?thesis by blast
    qed
    show "x = s \<or> (\<exists>y dy. P' x = Some (Some y) \<and> y \<in> ?V \<and> D' y = Some (Num dy) \<and> edge g y x \<and>
                      e = dy + edge_cost g y x)" if x: "x \<notin> ?V" "D' x = Some (Num e)" for x e
    proof -
      from rp(3)[of x] show ?thesis
      proof
        assume a: "D' x = D x \<and> P' x = P x"
        with x have "x \<notin> V" "D x = Some (Num e)" by auto
        from dinvD(10)[OF inv this] show ?thesis
        proof
          assume "x = s" then show ?thesis ..
        next
          assume "\<exists>y dy. P x = Some (Some y) \<and> y \<in> V \<and> D y = Some (Num dy) \<and> edge g y x \<and> e = dy + edge_cost g y x"
          then obtain y dy where y: "P x = Some (Some y)" "y \<in> V" "D y = Some (Num dy)" "edge g y x"
            "e = dy + edge_cost g y x" by blast
          from y(2) have "y \<in> ?V" by simp
          from same[OF this] y a show ?thesis by auto
        qed
      next
        assume a: "x \<notin> ?V \<and> x \<in> set ns \<and> P' x = Some (Some u) \<and> D' x = Some (Num (d + edge_cost g u x))"
        have "D' u = Some (Num d)" using same[of u] Du by simp
        moreover from a x(2) have "e = d + edge_cost g u x" by simp
        moreover from a have "edge g u x" using edges by blast
        ultimately show ?thesis using a by blast
      qed
    qed
    show "P' x = Some None" if "D' x = Some Infinity" for x
    proof -
      from rp(3)[of x] that have "D' x = D x \<and> P' x = P x" by auto
      with that dinvD(11)[OF inv, of x] show ?thesis by simp
    qed
  qed
  with rl post show ?thesis by blast
qed

definition oinv ::
  "('v, 'w::linordered_idom) graph \<Rightarrow> 'v \<Rightarrow> ('v \<rightharpoonup> 'w dist) \<Rightarrow> 'v set \<Rightarrow> bool" where
  "oinv g s D V =
     ((\<forall>x \<in> V. \<forall>p e. path_from_to g s x p \<longrightarrow> D x = Some (Num e) \<longrightarrow> e \<le> path_weight g p) \<and>
      (\<forall>x \<in> V. \<forall>y dx. edge g x y \<longrightarrow> D x = Some (Num dx) \<longrightarrow>
          (\<exists>dy. D y = Some (Num dy) \<and> dy \<le> dx + edge_cost g x y)))"

lemma oinv_D1:
  "oinv g s D V \<Longrightarrow> x \<in> V \<Longrightarrow> path_from_to g s x p \<Longrightarrow> D x = Some (Num e) \<Longrightarrow> e \<le> path_weight g p"
  unfolding oinv_def by (elim conjE) blast

lemma oinv_D2:
  "oinv g s D V \<Longrightarrow> x \<in> V \<Longrightarrow> edge g x y \<Longrightarrow> D x = Some (Num dx) \<Longrightarrow>
     \<exists>dy. D y = Some (Num dy) \<and> dy \<le> dx + edge_cost g x y"
  unfolding oinv_def by (elim conjE) blast

lemma oinvI:
  assumes "\<And>x p e. x \<in> V \<Longrightarrow> path_from_to g s x p \<Longrightarrow> D x = Some (Num e) \<Longrightarrow> e \<le> path_weight g p"
    and "\<And>x y dx. x \<in> V \<Longrightarrow> edge g x y \<Longrightarrow> D x = Some (Num dx) \<Longrightarrow>
          \<exists>dy. D y = Some (Num dy) \<and> dy \<le> dx + edge_cost g x y"
  shows "oinv g s D V"
  unfolding oinv_def using assms by blast

lemma nonneg_edge_cost:
  assumes "nonneg_weights g"
  shows "0 \<le> edge_cost g u v"
proof (cases "edge_data g u v")
  case (Inl e)
  then show ?thesis by (simp add: edge_cost_def)
next
  case (Inr data)
  then obtain es where es: "map_of g u = Some es" "map_of es v = Some data"
    by (auto simp: edge_data_def split: option.splits)
  then have "(u, es) \<in> set g" "(v, data) \<in> set es" by (auto dest: map_of_SomeD)
  with assms have "0 \<le> edge_weight data"
    by (auto simp: nonneg_weights_def list_all_iff)
  with Inr show ?thesis by (simp add: edge_cost_def)
qed

lemma nonneg_path_weight:
  assumes "nonneg_weights g"
  shows "0 \<le> path_weight g p"
proof (induction p rule: induct_list012)
  case (3 x y zs)
  with nonneg_edge_cost[OF assms, of x y] show ?case by simp
qed simp_all

lemma reached_by_Num: "reached_by g s D P V x \<Longrightarrow> \<exists>e. D x = Some (Num e)"
  unfolding reached_by_def by blast

lemma lower_bound_unvisited:
  assumes nn: "nonneg_weights g" and sV: "s \<in> V"
    and fin: "\<And>x. x \<in> V \<Longrightarrow> \<exists>e. D x = Some (Num e)"
    and o: "oinv g s D V"
    and q: "\<And>x e. x \<notin> V \<Longrightarrow> D x = Some (Num e) \<Longrightarrow> (e, x) \<in> set pq"
    and low: "\<And>e x. (e, x) \<in> set pq \<Longrightarrow> m \<le> e"
  shows "path_from_to g s w p \<Longrightarrow> w \<notin> V \<Longrightarrow> m \<le> path_weight g p"
proof (induction p arbitrary: w rule: rev_induct)
  case Nil
  then show ?case by (simp add: path_from_to_def is_path_def)
next
  case (snoc x xs)
  from snoc.prems(1) have xw: "x = w" by (simp add: path_from_to_def)
  show ?case
  proof (cases "xs = []")
    case True
    with snoc.prems(1) have "w = s" by (auto simp: path_from_to_def)
    with snoc.prems(2) sV show ?thesis by simp
  next
    case False
    from path_from_to_butlast[OF snoc.prems(1) False]
    have pu: "path_from_to g s (last xs) xs" and e: "edge g (last xs) x" by simp_all
    have pw: "path_weight g (xs @ [x]) = path_weight g xs + edge_cost g (last xs) x"
      using False by (rule path_weight_snoc)
    show ?thesis
    proof (cases "last xs \<in> V")
      case True
      from fin[OF True] obtain dx where dx: "D (last xs) = Some (Num dx)" by blast
      from oinv_D1[OF o True pu dx] have 1: "dx \<le> path_weight g xs" .
      from oinv_D2[OF o True e dx] obtain dy where dy: "D x = Some (Num dy)"
        "dy \<le> dx + edge_cost g (last xs) x" by blast
      from q[OF _ dy(1)] snoc.prems(2) xw have "(dy, x) \<in> set pq" by simp
      from low[OF this] have "m \<le> dy" .
      with dy(2) 1 pw show ?thesis by simp
    next
      case nv: False
      from snoc.IH[OF pu nv] have "m \<le> path_weight g xs" .
      with nonneg_edge_cost[OF nn, of "last xs" x] pw show ?thesis by simp
    qed
  qed
qed

lemma oinv_expand:
  assumes wf: "wf_graph g" and nn: "nonneg_weights g"
    and inv: "dinv g s D P pq V" and o: "oinv g s D V" and ne: "pq \<noteq> []"
    and pop: "heappop pq = ((d, u), pq')" and nV: "u \<notin> V"
    and ns: "neighbors g u = Inr ns"
    and post: "relax_post g u d (insert u V) ns D P pq' D' P' pq''"
    and inv': "dinv g s D' P' pq'' (insert u V)"
  shows "oinv g s D' (insert u V)"
proof -
  note hp = heappop_props[OF ne pop]
  note rp = relax_postD[OF post]
  let ?V = "insert u V"
  have Du: "D u = Some (Num d)" by (rule dinv_popped_distance[OF inv ne pop nV])
  have same: "D' x = D x" if "x \<in> ?V" for x
    using rp(3)[of x] that by blast
  have fin: "\<exists>e. D x = Some (Num e)" if "x \<in> V" for x
    using reached_by_Num[OF dinvD(9)[OF inv that]] .
  have low_u: "d \<le> path_weight g p" if p: "path_from_to g s u p" for p
  proof (cases "s \<in> V")
    case True
    show ?thesis
      by (rule lower_bound_unvisited[OF nn True fin o dinvD(8)[OF inv] hp(4) p nV])
  next
    case False
    with dinvD(6)[OF inv] hp(1) have "u = s" by blast
    with Du dinvD(4)[OF inv] have "d = 0" by simp
    with nonneg_path_weight[OF nn, of p] show ?thesis by simp
  qed
  from dinvD(9)[OF inv', of u] obtain xs where xs: "path_from_to g s u (rev xs)"
    "D' u = Some (Num (path_weight g (rev xs)))"
    unfolding reached_by_def by blast
  with same[of u] Du have wu: "path_weight g (rev xs) = d" by simp
  show ?thesis
  proof (rule oinvI)
    fix x p e assume a: "x \<in> ?V" "path_from_to g s x p" "D' x = Some (Num e)"
    show "e \<le> path_weight g p"
    proof (cases "x = u")
      case True
      with a(3) same[of u] Du have "e = d" by simp
      with low_u a(2) True show ?thesis by simp
    next
      case False
      with a(1) have xV: "x \<in> V" by simp
      with a(3) same[of x] have "D x = Some (Num e)" by simp
      from oinv_D1[OF o xV a(2) this] show ?thesis .
    qed
  next
    fix x y dx assume a: "x \<in> ?V" "edge g x y" "D' x = Some (Num dx)"
    from a(1,3) same[of x] have Dx: "D x = Some (Num dx)" by simp
    show "\<exists>dy. D' y = Some (Num dy) \<and> dy \<le> dx + edge_cost g x y"
    proof (cases "x = u")
      case False
      with a(1) have xV: "x \<in> V" by simp
      from oinv_D2[OF o xV a(2) Dx] obtain dy where dy: "D y = Some (Num dy)"
        "dy \<le> dx + edge_cost g x y" by blast
      from rp(4)[OF dy(1)] obtain dy' where "D' y = Some (Num dy')" "dy' \<le> dy" by blast
      with dy(2) show ?thesis by auto
    next
      case True
      with Dx Du have dxd: "dx = d" by simp
      from a(2) True have yn: "y \<in> set ns" using neighbors_edge_iff[OF ns] by simp
      have euy: "edge g u y" using a(2) True by simp
      show ?thesis
      proof (cases "y \<in> ?V")
        case nv: False
        from rp(8)[OF yn nv] dxd True show ?thesis by simp
      next
        case yV: True
        show ?thesis
        proof (cases "y = u")
          case True
          with same[of u] Du nonneg_edge_cost[OF nn, of u u] dxd \<open>x = u\<close> show ?thesis by simp
        next
          case False
          with yV have yV': "y \<in> V" by simp
          from fin[OF this] obtain dy where dy: "D y = Some (Num dy)" by blast
          have hy: "has_node g y" by (rule wf_graph_edge_has_node[OF wf euy])
          have py: "path_from_to g s y (rev xs @ [y])"
            by (rule path_from_to_snoc[OF xs(1) euy hy])
          from path_from_to_nonempty[OF xs(1)] have ne': "rev xs \<noteq> []" .
          from xs(1) have "last (rev xs) = u" by (simp add: path_from_to_def)
          with path_weight_snoc[OF ne', of g y] wu
          have "path_weight g (rev xs @ [y]) = d + edge_cost g u y" by simp
          with oinv_D1[OF o yV' py dy] have "dy \<le> d + edge_cost g u y" by simp
          with same[OF yV] dy dxd \<open>x = u\<close> show ?thesis by simp
        qed
      qed
    qed
  qed
qed

lemma dijkstra_loop_correct:
  assumes wf: "wf_graph g"
  shows "dinv g s D P pq V \<Longrightarrow> (nonneg_weights g \<longrightarrow> oinv g s D V) \<Longrightarrow>
     \<exists>D' P' V'. dijkstra_loop g D P pq V = Inr (D', P') \<and> dinv g s D' P' [] V' \<and>
        (nonneg_weights g \<longrightarrow> oinv g s D' V')"
proof (induction D P pq V rule: dijkstra_loop_induct[where g = g])
  case (step D P pq V)
  note inv = step.prems(1) and o = step.prems(2)
  show ?case
  proof (cases "pq = []")
    case True
    with inv o show ?thesis by (auto simp: dijkstra_loop_Nil)
  next
    case ne: False
    obtain d u pq' where pop: "heappop pq = ((d, u), pq')" by (metis surj_pair)
    show ?thesis
    proof (cases "u \<in> V")
      case True
      from step.IH(1)[OF ne pop True dinv_visited[OF inv ne pop True] o]
      show ?thesis by (simp add: dijkstra_loop_visited[OF ne pop True])
    next
      case nV: False
      have Du: "D u = Some (Num d)" by (rule dinv_popped_distance[OF inv ne pop nV])
      have ng: "\<not> gt_dist d (Num d)" by simp
      have hu: "has_node g u" using dinvD(7)[OF inv heappop_props(1)[OF ne pop]] by simp
      from has_node_neighbors[OF hu] obtain nbs where nbs: "neighbors g u = Inr nbs" ..
      from dinv_expand[OF wf inv ne pop nV nbs]
      obtain D' P' pq'' where rl: "relax g u d (insert u V) nbs D P pq' = Inr (D', P', pq'')"
        and post: "relax_post g u d (insert u V) nbs D P pq' D' P' pq''"
        and inv': "dinv g s D' P' pq'' (insert u V)" by blast
      have o': "nonneg_weights g \<longrightarrow> oinv g s D' (insert u V)"
      proof
        assume nn: "nonneg_weights g"
        with o have "oinv g s D V" by simp
        from oinv_expand[OF wf nn inv this ne pop nV nbs post inv'] show "oinv g s D' (insert u V)" .
      qed
      have "dijkstra_loop g D P pq V = dijkstra_loop g D' P' pq'' (insert u V)"
        using dijkstra_loop_expand[where D = D, OF ne pop nV Du ng] nbs rl by simp
      with step.IH(3)[OF ne pop nV Du ng nbs rl inv' o'] show ?thesis by simp
    qed
  qed
qed

lemma oinv_empty: "oinv g s D {}"
  by (rule oinvI) simp_all

lemma dijkstra_final:
  fixes g :: "('a::linorder, 'b::linordered_idom) graph"
  assumes "wf_graph g" "has_node g s"
  shows "\<exists>D P V. dijkstra g s = Inr (D, P) \<and> dinv g s D P [] V \<and> (nonneg_weights g \<longrightarrow> oinv g s D V)"
proof -
  have o: "nonneg_weights g \<longrightarrow> oinv g s D0 {}" for D0 :: "'a \<rightharpoonup> 'b dist"
    by (simp add: oinv_empty)
  from dijkstra_loop_correct[OF assms(1) dinv_init[OF assms(2)] o]
  show ?thesis unfolding dijkstra_def .
qed

lemma dijkstra_absent_source:
  assumes "\<not> has_node g s"
  shows "dijkstra g s = Inl NetworkXError"
proof -
  have pop: "heappop [(0, s)] = ((0, s), [])" by (simp add: heappop_def)
  have n: "neighbors g s = Inl NetworkXError"
    using assms by (simp add: neighbors_def has_node_iff)
  show ?thesis
    unfolding dijkstra_def
    by (subst dijkstra_loop_expand[where d = 0 and u = s and pq' = "[]" and dc = "Num 0", OF _ pop])
      (simp_all add: n)
qed

lemma dijkstra_Inr_has_node: "dijkstra g s = Inr r \<Longrightarrow> has_node g s"
  using dijkstra_absent_source[of g s] by auto

text \<open>What the final state says about each node.\<close>

lemma dinv_final_visited:
  assumes inv: "dinv g s D P [] V" and t: "t \<in> V"
  shows "\<exists>xs. pred_chain P t xs \<and> last xs = s \<and> path_from_to g s t (rev xs) \<and>
           D t = Some (Num (path_weight g (rev xs)))"
  using dinvD(9)[OF inv t] unfolding reached_by_def by blast

lemma dinv_final_unvisited:
  assumes inv: "dinv g s D P [] V" and t: "has_node g t" "t \<notin> V"
  shows "D t = Some Infinity \<and> P t = Some None \<and> t \<noteq> s"
proof -
  from t(1) dinvD(1)[OF inv] obtain dt where dt: "D t = Some dt"
    by (auto simp: has_node_def)
  have "dt = Infinity"
  proof (cases dt)
    case (Num e)
    with dinvD(8)[OF inv t(2), of e] dt show ?thesis by simp
  qed
  with dt dinvD(11)[OF inv, of t] dinvD(4)[OF inv] show ?thesis by auto
qed

lemma dinv_final_unreachable:
  assumes inv: "dinv g s D P [] V" and t: "has_node g t" "\<not> (\<exists>p. path_from_to g s t p)"
  shows "D t = Some Infinity \<and> pred_chain P t [t] \<and> t \<noteq> s"
proof -
  have "t \<notin> V" using dinv_final_visited[OF inv, of t] t(2) by blast
  from dinv_final_unvisited[OF inv t(1) this] show ?thesis by (simp add: pred_chain.root)
qed

lemma dinv_final_reachable:
  fixes g :: "('a::linorder, 'b::linordered_idom) graph"
  assumes nn: "nonneg_weights g" and inv: "dinv g s D P [] V" and o: "oinv g s D V"
    and p: "path_from_to g s t p"
  shows "t \<in> V"
proof (rule ccontr)
  assume t: "t \<notin> V"
  have sV: "s \<in> V" using dinvD(8)[OF inv _ dinvD(4)[OF inv]] by fastforce
  have fin: "\<exists>e. D x = Some (Num e)" if "x \<in> V" for x
    using reached_by_Num[OF dinvD(9)[OF inv that]] .
  have q: "(e, x) \<in> set []" if "x \<notin> V" "D x = Some (Num e)" for x e
    using dinvD(8)[OF inv that] .
  have low: "path_weight g p + 1 \<le> e" if "(e, x) \<in> set []" for e :: 'b and x :: 'a
    using that by simp
  have "path_weight g p + 1 \<le> path_weight g p"
    by (rule lower_bound_unvisited[OF nn sV fin o q low p t])
  then show False by simp
qed

lemma reconstruct_path_chain:
  assumes "pred_chain P t xs"
  shows "reconstruct_path P a t = Some (Inr (if last xs = a then rev xs else []))"
proof -
  from pred_chain_nonempty[OF assms] have ne: "xs \<noteq> []" by simp
  then have "hd (rev xs) = last xs" by (simp add: hd_rev)
  with walk_back_chain[OF assms, of "[]"] ne show ?thesis
    by (simp add: reconstruct_path_def Let_def)
qed

section \<open>Properties of Dijkstra's algorithm and of path reconstruction\<close>

lemma dijkstra_node_result:
  fixes g :: "('v::linorder, 'w::linordered_idom) graph"
  assumes "wf_graph g" and "nonneg_weights g" and "has_node g s"
  shows "\<exists>D P. dijkstra g s = Inr (D, P) \<and>
     (\<forall>t. has_node g t \<longrightarrow>
        (\<exists>xs. pred_chain P t xs \<and> last xs = s \<and> path_from_to g s t (rev xs) \<and>
              D t = Some (Num (path_weight g (rev xs))) \<and>
              (\<forall>p. path_from_to g s t p \<longrightarrow> path_weight g (rev xs) \<le> path_weight g p)) \<or>
        (D t = Some Infinity \<and> \<not> (\<exists>p. path_from_to g s t p)))"
proof -
  from dijkstra_final[OF assms(1,3)] assms(2)
  obtain D P V where r: "dijkstra g s = Inr (D, P)" and inv: "dinv g s D P [] V"
    and o: "oinv g s D V" by blast
  have "(\<exists>xs. pred_chain P t xs \<and> last xs = s \<and> path_from_to g s t (rev xs) \<and>
              D t = Some (Num (path_weight g (rev xs))) \<and>
              (\<forall>p. path_from_to g s t p \<longrightarrow> path_weight g (rev xs) \<le> path_weight g p)) \<or>
        (D t = Some Infinity \<and> \<not> (\<exists>p. path_from_to g s t p))" if t: "has_node g t" for t
  proof (cases "t \<in> V")
    case True
    from dinv_final_visited[OF inv True] obtain xs where xs: "pred_chain P t xs" "last xs = s"
      "path_from_to g s t (rev xs)" "D t = Some (Num (path_weight g (rev xs)))" by blast
    have "\<forall>p. path_from_to g s t p \<longrightarrow> path_weight g (rev xs) \<le> path_weight g p"
      using oinv_D1[OF o True _ xs(4)] by blast
    with xs show ?thesis by blast
  next
    case False
    from dinv_final_unvisited[OF inv t False] have "D t = Some Infinity" by simp
    moreover have "\<not> (\<exists>p. path_from_to g s t p)"
      using dinv_final_reachable[OF assms(2) inv o] False by blast
    ultimately show ?thesis by simp
  qed
  with r show ?thesis by blast
qed






text \<open>
  C6. For the predecessor map of any \<open>dijkstra\<close> run and any node \<open>t\<close> of the graph, the walk
  along the predecessor links from \<open>t\<close> returns, without an error, the non-empty list of the
  nodes it met. For every source \<open>a\<close> at which the walk does not end, \<open>reconstruct_path\<close>
  returns the empty sequence; so it does for the source of the run when no path leads from
  it to \<open>t\<close>.
\<close>

theorem reconstruct_path_unreachable:
  fixes g :: "('v::linorder, 'w::linordered_idom) graph"
  assumes "wf_graph g" and "dijkstra g s = Inr (distances, previous)" and "has_node g t"
  shows "\<exists>xs. walk_back previous (Some t) [] = Some (Inr xs) \<and> xs \<noteq> [] \<and>
           (last xs \<noteq> a \<longrightarrow> reconstruct_path previous a t = Some (Inr [])) \<and>
           ((\<not> (\<exists>p. path_from_to g s t p)) \<longrightarrow> reconstruct_path previous s t = Some (Inr []))"
proof -
  from assms(2) have hs: "has_node g s" by (rule dijkstra_Inr_has_node)
  from dijkstra_final[OF assms(1) hs] assms(2)
  obtain V where inv: "dinv g s distances previous [] V" by auto
  have "\<exists>xs. pred_chain previous t xs \<and> ((\<not> (\<exists>p. path_from_to g s t p)) \<longrightarrow> last xs \<noteq> s)"
  proof (cases "t \<in> V")
    case True
    from dinv_final_visited[OF inv True] show ?thesis by blast
  next
    case False
    from dinv_final_unvisited[OF inv assms(3) False]
    have "pred_chain previous t [t]" "t \<noteq> s" by (simp_all add: pred_chain.root)
    then show ?thesis by (intro exI[of _ "[t]"]) simp
  qed
  then obtain xs where xs: "pred_chain previous t xs"
    "(\<not> (\<exists>p. path_from_to g s t p)) \<longrightarrow> last xs \<noteq> s" by blast
  from pred_chain_nonempty[OF xs(1)] have ne: "xs \<noteq> []" by simp
  from walk_back_chain[OF xs(1), of "[]"] have wb: "walk_back previous (Some t) [] = Some (Inr xs)"
    by simp
  from reconstruct_path_chain[OF xs(1)] xs(2) ne wb show ?thesis
    by (intro exI[of _ xs]) simp
qed

theorem reconstruct_path_unreachable_witness:
  "wf_graph two_islands \<and> has_node two_islands ''B'' \<and>
   \<not> isl (dijkstra two_islands ''A'') \<and>
   reconstruct_path (snd (projr (dijkstra two_islands ''A''))) ''A'' ''B'' = Some (Inr []) \<and>
   (\<exists>xs. walk_back (snd (projr (dijkstra two_islands ''A''))) (Some ''B'') [] = Some (Inr xs) \<and>
         xs \<noteq> [])"
proof -
  have w: "wf_graph two_islands" "has_node two_islands ''B''" by code_simp+
  have i: "\<not> isl (dijkstra two_islands ''A'')" by code_simp
  then have r: "dijkstra two_islands ''A'' =
      Inr (fst (projr (dijkstra two_islands ''A'')), snd (projr (dijkstra two_islands ''A'')))"
    by simp
  have e: "reconstruct_path (snd (projr (dijkstra two_islands ''A''))) ''A'' ''B'' = Some (Inr [])"
    by code_simp
  from reconstruct_path_unreachable[OF w(1) r w(2), of "''A''"] w i e show ?thesis by blast
qed

lemma unweighted_edge_cost:
  assumes "unweighted g" "edge g u v"
  shows "edge_cost g u v = 1"
proof -
  from assms(2) obtain es where es: "map_of g u = Some es" "v \<in> fst ` set es"
    by (auto simp: edge_def split: option.splits)
  from es(2) obtain data where data: "map_of es v = Some data"
    by (cases "map_of es v") (auto simp: map_of_eq_None_iff)
  from es(1) data have "(u, es) \<in> set g" "(v, data) \<in> set es" by (auto dest: map_of_SomeD)
  with assms(1) have "weight data = None" by (auto simp: unweighted_def list_all_iff)
  with es(1) data show ?thesis by (simp add: edge_cost_def edge_data_def edge_weight_def)
qed

lemma unweighted_nonneg:
  fixes g :: "('v, 'w::linordered_idom) graph"
  assumes "unweighted g"
  shows "nonneg_weights g"
  using assms by (fastforce simp: unweighted_def nonneg_weights_def list_all_iff edge_weight_def)

lemma unweighted_path_weight:
  assumes "unweighted g"
  shows "successively (edge g) p \<Longrightarrow> path_weight g p = of_nat (length p - 1)"
proof (induction p rule: induct_list012)
  case (3 x y zs)
  then have "edge g x y" "successively (edge g) (y # zs)" by simp_all
  with 3 unweighted_edge_cost[OF assms, of x y] show ?case by simp
qed simp_all

text \<open>
  C10. An edge without a weight attribute counts with weight 1. On a graph none of whose
  edges has a weight attribute, \<open>dijkstra\<close> returns, and the distance map holds for every
  node the least number of edges of a path from the source, or infinity when there is no
  path.
\<close>

theorem dijkstra_unweighted_counts_edges:
  fixes g :: "('v::linorder, 'w::linordered_idom) graph"
  assumes "wf_graph g" and "unweighted g" and "has_node g s"
  shows "(\<forall>data :: 'w edata. weight data = None \<longrightarrow> edge_weight data = 1) \<and>
     (\<exists>distances previous.
        dijkstra g s = Inr (distances, previous) \<and>
        (\<forall>t. has_node g t \<longrightarrow>
           (case distances t of
              Some (Num d) \<Rightarrow>
                (\<exists>p. path_from_to g s t p \<and> d = of_nat (length p - 1) \<and>
                     (\<forall>q. path_from_to g s t q \<longrightarrow> length p - 1 \<le> length q - 1))
            | Some Infinity \<Rightarrow> \<not> (\<exists>p. path_from_to g s t p)
            | None \<Rightarrow> False)))"
proof
  show "\<forall>data :: 'w edata. weight data = None \<longrightarrow> edge_weight data = 1"
    by (simp add: edge_weight_def)
next
  have pw: "path_weight g p = of_nat (length p - 1)" if "path_from_to g s t p" for t p
    using unweighted_path_weight[OF assms(2), of p] that
    by (simp add: path_from_to_def is_path_def)
  from dijkstra_node_result[OF assms(1) unweighted_nonneg[OF assms(2)] assms(3)]
  obtain D P where r: "dijkstra g s = Inr (D, P)" and
    a: "\<And>t. has_node g t \<Longrightarrow>
        (\<exists>xs. pred_chain P t xs \<and> last xs = s \<and> path_from_to g s t (rev xs) \<and>
              D t = Some (Num (path_weight g (rev xs))) \<and>
              (\<forall>p. path_from_to g s t p \<longrightarrow> path_weight g (rev xs) \<le> path_weight g p)) \<or>
        (D t = Some Infinity \<and> \<not> (\<exists>p. path_from_to g s t p))" by blast
  have "case D t of
          Some (Num d) \<Rightarrow>
            (\<exists>p. path_from_to g s t p \<and> d = of_nat (length p - 1) \<and>
                 (\<forall>q. path_from_to g s t q \<longrightarrow> length p - 1 \<le> length q - 1))
        | Some Infinity \<Rightarrow> \<not> (\<exists>p. path_from_to g s t p)
        | None \<Rightarrow> False" if t: "has_node g t" for t
    using a[OF t]
  proof
    assume "\<exists>xs. pred_chain P t xs \<and> last xs = s \<and> path_from_to g s t (rev xs) \<and>
              D t = Some (Num (path_weight g (rev xs))) \<and>
              (\<forall>p. path_from_to g s t p \<longrightarrow> path_weight g (rev xs) \<le> path_weight g p)"
    then obtain xs where p: "path_from_to g s t (rev xs)"
      and d: "D t = Some (Num (path_weight g (rev xs)))"
      and low: "\<And>q. path_from_to g s t q \<Longrightarrow> path_weight g (rev xs) \<le> path_weight g q" by blast
    have "length (rev xs) - 1 \<le> length q - 1" if q: "path_from_to g s t q" for q
    proof -
      from low[OF q] pw[OF p] pw[OF q]
      have "(of_nat (length (rev xs) - 1) :: 'w) \<le> of_nat (length q - 1)" by simp
      then show ?thesis by simp
    qed
    with p d pw[OF p] show ?thesis by auto
  next
    assume "D t = Some Infinity \<and> \<not> (\<exists>p. path_from_to g s t p)"
    then show ?thesis by simp
  qed
  with r show "\<exists>distances previous.
        dijkstra g s = Inr (distances, previous) \<and>
        (\<forall>t. has_node g t \<longrightarrow>
           (case distances t of
              Some (Num d) \<Rightarrow>
                (\<exists>p. path_from_to g s t p \<and> d = of_nat (length p - 1) \<and>
                     (\<forall>q. path_from_to g s t q \<longrightarrow> length p - 1 \<le> length q - 1))
            | Some Infinity \<Rightarrow> \<not> (\<exists>p. path_from_to g s t p)
            | None \<Rightarrow> False))" by blast
qed

theorem dijkstra_unweighted_counts_edges_witness:
  "wf_graph chain_graph \<and> unweighted chain_graph \<and> has_node chain_graph ''A'' \<and>
   (\<exists>distances previous.
      dijkstra chain_graph ''A'' = Inr (distances, previous) \<and>
      map distances [''A'', ''B'', ''C'', ''D''] =
        [Some (Num 0), Some (Num 1), Some (Num 2), Some (Num 3)] \<and>
      (\<exists>p. path_from_to chain_graph ''A'' ''D'' p \<and> length p - 1 = 3 \<and>
           (\<forall>q. path_from_to chain_graph ''A'' ''D'' q \<longrightarrow> length p - 1 \<le> length q - 1)))"
proof -
  have w: "wf_graph chain_graph" "unweighted chain_graph" "has_node chain_graph ''A''"
    "has_node chain_graph ''D''" by code_simp+
  have e: "case dijkstra chain_graph ''A'' of
             Inr (distances, previous) \<Rightarrow>
               map distances [''A'', ''B'', ''C'', ''D''] =
                 [Some (Num 0), Some (Num 1), Some (Num 2), Some (Num 3)]
           | Inl e \<Rightarrow> False"
    by code_simp
  from dijkstra_unweighted_counts_edges[OF w(1,2,3)] obtain distances previous where
    r: "dijkstra chain_graph ''A'' = Inr (distances, previous)" and
    a: "\<forall>t. has_node chain_graph t \<longrightarrow>
           (case distances t of
              Some (Num d) \<Rightarrow>
                (\<exists>p. path_from_to chain_graph ''A'' t p \<and> d = of_nat (length p - 1) \<and>
                     (\<forall>q. path_from_to chain_graph ''A'' t q \<longrightarrow> length p - 1 \<le> length q - 1))
            | Some Infinity \<Rightarrow> \<not> (\<exists>p. path_from_to chain_graph ''A'' t p)
            | None \<Rightarrow> False)" by blast
  from e r have m: "map distances [''A'', ''B'', ''C'', ''D''] =
        [Some (Num 0), Some (Num 1), Some (Num 2), Some (Num 3)]" by simp
  then have "distances ''D'' = Some (Num 3)" by simp
  with a w(4) obtain p where p: "path_from_to chain_graph ''A'' ''D'' p" "(3 :: int) = of_nat (length p - 1)"
    "\<forall>q. path_from_to chain_graph ''A'' ''D'' q \<longrightarrow> length p - 1 \<le> length q - 1"
    by fastforce
  from p(2) have "length p - 1 = 3" by linarith
  with p(1,3) have inner: "\<exists>p. path_from_to chain_graph ''A'' ''D'' p \<and> length p - 1 = 3 \<and>
           (\<forall>q. path_from_to chain_graph ''A'' ''D'' q \<longrightarrow> length p - 1 \<le> length q - 1)"
    by blast
  show ?thesis
    by (intro conjI w(1) w(2) w(3) exI[of _ distances] exI[of _ previous] r m inner)
qed

end
